theory Spec2Isabelle
  imports Main "HOL-Library.Word" "HOL-Library.Monad_Syntax"
begin

unbundle bit_operations_syntax

section \<open>Machine types, constants and numeric helpers\<close>

text \<open>
  \<^verbatim>\<open>uint_t\<close> is declared in \<^verbatim>\<open>config.h\<close>, which is not part of the sources at hand; it
  is taken to be the 32-bit \<^verbatim>\<open>unsigned int\<close>. \<^verbatim>\<open>NUMBERS_PER_BYTE\<close> is 30: each byte
  of the sieve array stands for a block of 30 numbers.
\<close>

type_synonym uint64_t = "64 word"
type_synonym uint_t = "32 word"
type_synonym uint8_t = "8 word"

definition NUMBERS_PER_BYTE :: "'a::len word" where
  \<comment> \<open>Modelled from the spec: the enumerator \<^verbatim>\<open>NUMBERS_PER_BYTE\<close> of the missing header;
      the spec fixes the width of a block at 30.\<close>
  "NUMBERS_PER_BYTE = 30"

definition bitValues :: "uint_t list" where
  "bitValues = [7, 11, 13, 17, 19, 23, 29, 31]"

fun floorPowerOf2_nat :: "nat \<Rightarrow> nat" where
  "floorPowerOf2_nat n = (if n < 2 then n else 2 * floorPowerOf2_nat (n div 2))"

declare floorPowerOf2_nat.simps [simp del]

definition floorPowerOf2 :: "int \<Rightarrow> int" where
  \<comment> \<open>Modelled from the spec: \<^verbatim>\<open>floorPowerOf2<int>\<close> of \<^verbatim>\<open>imath.h\<close> (not among the
      sources), the power-of-two rounding helper. The name used at the call site fixes
      the direction: the greatest power of two that does not exceed the argument, and
      0 when there is none.\<close>
  "floorPowerOf2 x = (if x < 1 then 0 else int (floorPowerOf2_nat (nat x)))"

definition getInBetween :: "int \<Rightarrow> int \<Rightarrow> int \<Rightarrow> int" where
  \<comment> \<open>Modelled from the spec: \<^verbatim>\<open>getInBetween(min, value, max)\<close> of \<^verbatim>\<open>imath.h\<close>, the
      clamping helper.\<close>
  "getInBetween lo x hi = (if x < lo then lo else if x > hi then hi else x)"

primrec isqrt :: "nat \<Rightarrow> nat" where
  \<comment> \<open>Modelled from the spec: \<^verbatim>\<open>isqrt\<close> of \<^verbatim>\<open>imath.h\<close>, the integer square root.\<close>
  "isqrt 0 = 0"
| "isqrt (Suc n) = (let r = isqrt n in if (r + 1) * (r + 1) \<le> Suc n then r + 1 else r)"

definition getByteRemainder :: "uint64_t \<Rightarrow> uint64_t" where
  "getByteRemainder n =
     (let remainder = n mod NUMBERS_PER_BYTE
      in if remainder \<le> 1 then remainder + NUMBERS_PER_BYTE else remainder)"

section \<open>Exceptions, collaborators and the orchestrator's state\<close>

datatype error = primesieve_error string | bad_alloc

record PreSieve =
  PreSieve_limit :: uint_t

record Erat =
  Erat_limit :: uint_t

text \<open>
  The objects the orchestrator owns on the free store. The heap of the model is the
  list of the objects that are alive; \<^verbatim>\<open>new\<close> adds one, \<^verbatim>\<open>delete\<close> removes it.
\<close>

datatype obj = EratSmallObj Erat | EratMediumObj Erat | EratBigObj Erat | SieveArray nat

type_synonym heap = "obj list"

text \<open>
  The collaborators are parameters of the model: the pre-sieve, the three crossing-off
  engines, the two configured factors and the allocator. A constructor either throws or
  yields an object. The engines keep the position of the current segment in their own
  state; the model hands them the numeric offset of the buffer instead.
\<close>

record env =
  new_PreSieve :: "uint_t \<Rightarrow> error + PreSieve"
  doIt :: "PreSieve \<Rightarrow> uint8_t list \<Rightarrow> uint_t \<Rightarrow> uint64_t \<Rightarrow> uint8_t list"
  times_FACTOR_ERATSMALL :: "uint_t \<Rightarrow> uint_t"
  times_FACTOR_ERATMEDIUM :: "uint_t \<Rightarrow> uint_t"
  new_EratSmall :: "uint64_t \<Rightarrow> uint_t \<Rightarrow> uint_t \<Rightarrow> error + Erat"
  new_EratMedium :: "uint64_t \<Rightarrow> uint_t \<Rightarrow> uint_t \<Rightarrow> error + Erat"
  new_EratBig :: "uint64_t \<Rightarrow> uint_t \<Rightarrow> uint_t \<Rightarrow> error + Erat"
  crossOff_small :: "Erat \<Rightarrow> uint64_t \<Rightarrow> uint8_t list \<Rightarrow> uint_t \<Rightarrow> uint8_t list"
  crossOff_medium :: "Erat \<Rightarrow> uint64_t \<Rightarrow> uint8_t list \<Rightarrow> uint_t \<Rightarrow> uint8_t list"
  crossOff_big :: "Erat \<Rightarrow> uint64_t \<Rightarrow> uint8_t list \<Rightarrow> uint8_t list"
  new_fails :: "uint_t \<Rightarrow> bool"
  uninitialized :: "nat \<Rightarrow> uint8_t"

record SieveOfEratosthenes =
  start_m :: uint64_t
  stop_m :: uint64_t
  sqrtStop_m :: uint_t
  preSieve_m :: PreSieve
  sieveSize_m :: uint_t
  segmentLow_m :: uint64_t
  segmentHigh_m :: uint64_t
  sieve_m :: "uint8_t list"
  eratSmall_m :: "Erat option"
  eratMedium_m :: "Erat option"
  eratBig_m :: "Erat option"
  emitted :: "(uint64_t \<times> uint8_t list) list"

text \<open>
  \<^verbatim>\<open>segmentProcessed\<close> is the callback of the consumer. The model records each call:
  the bytes handed over, with the numeric offset of the first one.
\<close>

definition segmentProcessed :: "SieveOfEratosthenes \<Rightarrow> SieveOfEratosthenes" where
  "segmentProcessed s =
     s\<lparr>emitted := emitted s @ [(segmentLow_m s, take (unat (sieveSize_m s)) (sieve_m s))]\<rparr>"

section \<open>Construction\<close>

definition delete_obj :: "(Erat \<Rightarrow> obj) \<Rightarrow> Erat option \<Rightarrow> heap \<Rightarrow> heap" where
  "delete_obj C p h = (case p of None \<Rightarrow> h | Some t \<Rightarrow> remove1 (C t) h)"

text \<open>
  The body of the \<^verbatim>\<open>try\<close> block: it ends normally (\<open>None\<close>) or with the exception of a
  constructor, in either case with the members assigned so far.
\<close>

definition initEratAlgorithms_try ::
  "env \<Rightarrow> uint_t \<Rightarrow> uint_t \<Rightarrow> SieveOfEratosthenes \<Rightarrow> heap \<Rightarrow>
     error option \<times> SieveOfEratosthenes \<times> heap" where
  "initEratAlgorithms_try E esLimit emLimit s h =
     (if sqrtStop_m s > PreSieve_limit (preSieve_m s) then
        (case new_EratSmall E (stop_m s) (sieveSize_m s) esLimit of
           Inl e \<Rightarrow> (Some e, s, h)
         | Inr es \<Rightarrow>
            let s1 = s\<lparr>eratSmall_m := Some es\<rparr>; h1 = EratSmallObj es # h in
            if sqrtStop_m s1 > Erat_limit es then
              (case new_EratMedium E (stop_m s1) (sieveSize_m s1) emLimit of
                 Inl e \<Rightarrow> (Some e, s1, h1)
               | Inr em \<Rightarrow>
                  let s2 = s1\<lparr>eratMedium_m := Some em\<rparr>; h2 = EratMediumObj em # h1 in
                  if sqrtStop_m s2 > Erat_limit em then
                    (case new_EratBig E (stop_m s2) (sieveSize_m s2) (sqrtStop_m s2) of
                       Inl e \<Rightarrow> (Some e, s2, h2)
                     | Inr eb \<Rightarrow> (None, s2\<lparr>eratBig_m := Some eb\<rparr>, EratBigObj eb # h2))
                  else (None, s2, h2))
            else (None, s1, h1))
      else (None, s, h))"

definition initEratAlgorithms ::
  "env \<Rightarrow> SieveOfEratosthenes \<Rightarrow> heap \<Rightarrow> (error + SieveOfEratosthenes) \<times> heap" where
  "initEratAlgorithms E s h =
     (let esLimit = times_FACTOR_ERATSMALL E (sieveSize_m s);
          emLimit = times_FACTOR_ERATMEDIUM E (sieveSize_m s)
      in case initEratAlgorithms_try E esLimit emLimit s h of
           (None, s', h') \<Rightarrow> (Inr s', h')
         | (Some e, s', h') \<Rightarrow>
             (Inl e, delete_obj EratBigObj (eratBig_m s')
                       (delete_obj EratMediumObj (eratMedium_m s')
                         (delete_obj EratSmallObj (eratSmall_m s') h'))))"

definition ctor_sieveSize :: "uint_t \<Rightarrow> uint_t" where
  \<comment> \<open>Lines 67 and 68 of the constructor: the requested size, a \<^verbatim>\<open>uint_t\<close>, is read as
      an \<^verbatim>\<open>int\<close>; the result is stored in the \<^verbatim>\<open>uint_t\<close> member and scaled to bytes.\<close>
  "ctor_sieveSize sieveSize =
     (word_of_int (getInBetween 1 (floorPowerOf2 (sint sieveSize)) 4096) :: uint_t) * 1024"

definition SieveOfEratosthenes_members ::
  "PreSieve \<Rightarrow> uint64_t \<Rightarrow> uint64_t \<Rightarrow> uint_t \<Rightarrow> SieveOfEratosthenes" where
  \<comment> \<open>The members after the initialiser list and lines 67 to 70, before
      \<^verbatim>\<open>initEratAlgorithms\<close> runs. \<^verbatim>\<open>sieve_\<close> is not allocated yet.\<close>
  "SieveOfEratosthenes_members ps start stop sieveSize =
     (let sz = ctor_sieveSize sieveSize;
          lo = start - getByteRemainder start
      in \<lparr>start_m = start, stop_m = stop,
          sqrtStop_m = word_of_nat (isqrt (unat stop)),
          preSieve_m = ps, sieveSize_m = sz,
          segmentLow_m = lo,
          segmentHigh_m = lo + ucast (sz * NUMBERS_PER_BYTE) + 1,
          sieve_m = [],
          eratSmall_m = None, eratMedium_m = None, eratBig_m = None,
          emitted = []\<rparr>)"

definition SieveOfEratosthenes_new ::
  "env \<Rightarrow> uint64_t \<Rightarrow> uint64_t \<Rightarrow> uint_t \<Rightarrow> uint_t \<Rightarrow> heap \<Rightarrow>
     (error + SieveOfEratosthenes) \<times> heap" where
  "SieveOfEratosthenes_new E start stop sieveSize preSieve h =
     (case new_PreSieve E preSieve of
        Inl e \<Rightarrow> (Inl e, h)
      | Inr ps \<Rightarrow>
         if start < 7 then
           (Inl (primesieve_error ''SieveOfEratosthenes: start must be >= 7''), h)
         else if start > stop then
           (Inl (primesieve_error ''SieveOfEratosthenes: start must be <= stop''), h)
         else
           (case initEratAlgorithms E (SieveOfEratosthenes_members ps start stop sieveSize) h of
              (Inl e, h') \<Rightarrow> (Inl e, h')
            | (Inr s', h') \<Rightarrow>
               if new_fails E (sieveSize_m s') then (Inl bad_alloc, h')
               else (Inr (s'\<lparr>sieve_m := map (uninitialized E) [0..<unat (sieveSize_m s')]\<rparr>),
                     SieveArray (unat (sieveSize_m s')) # h')))"

section \<open>Sieving a segment\<close>

text \<open>
  In the functions below the result \<open>None\<close> stands for an access outside an array (or,
  for the loop of \<^verbatim>\<open>finish\<close>, for a loop that does not end).
\<close>

function preSieve_loop :: "uint64_t \<Rightarrow> nat \<Rightarrow> nat option" where
  "preSieve_loop r i =
     (if i < length bitValues then
        (if ucast (bitValues ! i) < r then preSieve_loop r (i + 1) else Some i)
      else None)"
  by pat_completeness auto
termination
  by (relation "measure (\<lambda>(r, i). length bitValues - i)") auto

declare preSieve_loop.simps [simp del]

definition preSieve :: "env \<Rightarrow> SieveOfEratosthenes \<Rightarrow> SieveOfEratosthenes option" where
  "preSieve E s =
     (let s1 = s\<lparr>sieve_m := doIt E (preSieve_m s) (sieve_m s) (sieveSize_m s) (segmentLow_m s)\<rparr>
      in if segmentLow_m s1 \<le> start_m s1 then
           (if sieve_m s1 = [] then None
            else
              let s2 = (if start_m s1 \<le> ucast (PreSieve_limit (preSieve_m s1))
                        then s1\<lparr>sieve_m := (sieve_m s1)[0 := 0xff]\<rparr> else s1)
              in case preSieve_loop (getByteRemainder (start_m s2)) 0 of
                   None \<Rightarrow> None
                 | Some i \<Rightarrow>
                     Some (s2\<lparr>sieve_m := (sieve_m s2)
                        [0 := word_of_int (and (uint (sieve_m s2 ! 0)) (push_bit i 0xff))]\<rparr>))
         else Some s1)"

definition crossOffMultiples :: "env \<Rightarrow> SieveOfEratosthenes \<Rightarrow> SieveOfEratosthenes" where
  "crossOffMultiples E s =
     (case eratSmall_m s of
        None \<Rightarrow> s
      | Some es \<Rightarrow>
         let s1 = s\<lparr>sieve_m := crossOff_small E es (segmentLow_m s) (sieve_m s) (sieveSize_m s)\<rparr>
         in case eratMedium_m s1 of
              None \<Rightarrow> s1
            | Some em \<Rightarrow>
               let s2 = s1\<lparr>sieve_m :=
                          crossOff_medium E em (segmentLow_m s1) (sieve_m s1) (sieveSize_m s1)\<rparr>
               in case eratBig_m s2 of
                    None \<Rightarrow> s2
                  | Some eb \<Rightarrow>
                     s2\<lparr>sieve_m := crossOff_big E eb (segmentLow_m s2) (sieve_m s2)\<rparr>)"

definition sieveSegment :: "env \<Rightarrow> SieveOfEratosthenes \<Rightarrow> SieveOfEratosthenes option" where
  "sieveSegment E s =
     do { s1 \<leftarrow> preSieve E s;
          Some (segmentProcessed (crossOffMultiples E s1)) }"

section \<open>Finishing\<close>

definition advance :: "SieveOfEratosthenes \<Rightarrow> SieveOfEratosthenes" where
  \<comment> \<open>Lines 152 and 153: the window moves on by one segment.\<close>
  "advance s =
     s\<lparr>segmentLow_m := segmentLow_m s + ucast (sieveSize_m s * NUMBERS_PER_BYTE),
       segmentHigh_m := segmentHigh_m s + ucast (sieveSize_m s * NUMBERS_PER_BYTE)\<rparr>"

partial_function (option) finish_loop ::
  "env \<Rightarrow> SieveOfEratosthenes \<Rightarrow> SieveOfEratosthenes option" where
  "finish_loop E s =
     (if segmentHigh_m s < stop_m s then
        do { s1 \<leftarrow> sieveSegment E s; finish_loop E (advance s1) }
      else Some s)"

function finish_upper :: "uint64_t \<Rightarrow> nat \<Rightarrow> nat" where
  "finish_upper remainder i =
     (if i < 8 then
        (if ucast (bitValues ! i) > remainder then i else finish_upper remainder (i + 1))
      else i)"
  by pat_completeness auto
termination
  by (relation "measure (\<lambda>(r, i). 8 - i)") auto

declare finish_upper.simps [simp del]

function finish_pad :: "uint8_t list \<Rightarrow> uint_t \<Rightarrow> uint8_t list option" where
  "finish_pad sieve j =
     (if j mod 8 \<noteq> 0 then
        (if unat j < length sieve then finish_pad (sieve[unat j := 0]) (j + 1) else None)
      else Some sieve)"
  by pat_completeness auto
termination
proof (relation "measure (\<lambda>(sieve, j). (8 - unat j mod 8) mod 8)", goal_cases)
  case 1
  show ?case by simp
next
  case (2 sieve j)
  define r where "r = unat j mod 8"
  have "r \<noteq> 0"
    using 2(1) by (simp add: r_def unat_mod_distrib flip: unat_eq_zero)
  then have r: "0 < r" "r < 8" by (simp_all add: r_def)
  have "unat (j + 1) = (unat j + 1) mod 2 ^ 32"
    by (simp add: unat_word_ariths)
  moreover have "(8::nat) dvd 2 ^ 32" by simp
  ultimately have "unat (j + 1) mod 8 = (unat j + 1) mod 8"
    by (simp only: mod_mod_cancel)
  then have "unat (j + 1) mod 8 = (if Suc r = 8 then 0 else Suc r)"
    by (simp add: mod_Suc r_def)
  then show ?case
    unfolding r_def [symmetric] using r by (auto simp flip: r_def split: if_splits)
qed

declare finish_pad.simps [simp del]

definition finish_resize :: "uint64_t \<Rightarrow> SieveOfEratosthenes \<Rightarrow> SieveOfEratosthenes" where
  \<comment> \<open>Lines 157 and 158: the length of the last segment and the end of its window.\<close>
  "finish_resize remainder s =
     (let s2 = s\<lparr>sieveSize_m :=
                  (ucast ((stop_m s - remainder) - segmentLow_m s) :: uint_t)
                     div NUMBERS_PER_BYTE + 1\<rparr>
      in s2\<lparr>segmentHigh_m :=
               segmentLow_m s2 + ucast (sieveSize_m s2 * NUMBERS_PER_BYTE) + 1\<rparr>)"

definition finish_sieved ::
  "env \<Rightarrow> SieveOfEratosthenes \<Rightarrow> (uint64_t \<times> SieveOfEratosthenes) option" where
  \<comment> \<open>Lines 150 to 160: the full segments, then the last segment up to the crossing
      off. The result carries the local variable \<^verbatim>\<open>remainder\<close>.\<close>
  "finish_sieved E s =
     do { s1 \<leftarrow> finish_loop E s;
          let remainder = getByteRemainder (stop_m s1);
          s4 \<leftarrow> preSieve E (finish_resize remainder s1);
          Some (remainder, crossOffMultiples E s4) }"

definition finish_bounds ::
  "uint64_t \<Rightarrow> SieveOfEratosthenes \<Rightarrow> SieveOfEratosthenes option" where
  \<comment> \<open>Lines 161 to 169: the mask of the upper bound, the padding, the callback.\<close>
  "finish_bounds remainder s =
     (let i = finish_upper remainder 0;
          k = unat (sieveSize_m s - 1)
      in if k < length (sieve_m s) then
           do { let s6 = s\<lparr>sieve_m := (sieve_m s)
                           [k := word_of_int (and (uint (sieve_m s ! k)) (not (push_bit i 0xff)))]\<rparr>;
                sv \<leftarrow> finish_pad (sieve_m s6) (sieveSize_m s6);
                Some (segmentProcessed (s6\<lparr>sieve_m := sv\<rparr>)) }
         else None)"

definition finish :: "env \<Rightarrow> SieveOfEratosthenes \<Rightarrow> SieveOfEratosthenes option" where
  "finish E s =
     do { (remainder, s5) \<leftarrow> finish_sieved E s;
          finish_bounds remainder s5 }"

section \<open>What the segments stand for\<close>

definition bitNumber :: "uint64_t \<Rightarrow> nat \<Rightarrow> nat \<Rightarrow> nat" where
  \<comment> \<open>The number that bit \<open>k\<close> of byte \<open>j\<close> stands for, in a segment whose first byte
      has the numeric offset \<open>low\<close>.\<close>
  "bitNumber low j k = unat low + 30 * j + unat (bitValues ! k)"

definition candidates :: "(uint64_t \<times> uint8_t list) list \<Rightarrow> nat set" where
  \<comment> \<open>The numbers whose bits are set in the segments handed to the consumer.\<close>
  "candidates segs =
     {n. \<exists>(low, buf) \<in> set segs. \<exists>j < length buf. \<exists>k < 8.
            bit (buf ! j) k \<and> n = bitNumber low j k}"

definition is_prime :: "nat \<Rightarrow> bool" where
  "is_prime n = (2 \<le> n \<and> (\<forall>d \<in> {2..<n}. \<not> d dvd n))"

definition landsOnOrBetween :: "uint64_t \<Rightarrow> bool" where
  \<comment> \<open>The spec's words for the result of the byte-remainder helper: one of the eight
      offsets, or strictly between two of them.\<close>
  "landsOnOrBetween r =
     (r \<in> ucast ` set bitValues \<or>
      (\<exists>a \<in> set bitValues. \<exists>b \<in> set bitValues. ucast a < r \<and> r < ucast b))"


section \<open>Reference collaborators\<close>

text \<open>
  A pre-sieve and three engines that do what their contracts ask, by trial division.
  They serve as the concrete collaborators of the examples below.
\<close>

definition byte_of_bits :: "(nat \<Rightarrow> bool) \<Rightarrow> uint8_t" where
  "byte_of_bits f = horner_sum of_bool 2 (map f [0..<8])"

definition ref_doIt :: "PreSieve \<Rightarrow> uint8_t list \<Rightarrow> uint_t \<Rightarrow> uint64_t \<Rightarrow> uint8_t list" where
  \<comment> \<open>The pattern of the pre-sieve: every multiple of a prime from 7 up to the limit is
      crossed off, the prime itself included.\<close>
  "ref_doIt ps buf sz low =
     map (\<lambda>j. if j < unat sz
              then byte_of_bits (\<lambda>k. \<not> (\<exists>p \<in> {7..unat (PreSieve_limit ps)}.
                                        is_prime p \<and> p dvd bitNumber low j k))
              else buf ! j) [0..<length buf]"

definition ref_crossOff :: "Erat \<Rightarrow> uint64_t \<Rightarrow> uint8_t list \<Rightarrow> uint_t \<Rightarrow> uint8_t list" where
  \<comment> \<open>An engine crosses off the multiples of its primes from the square on.\<close>
  "ref_crossOff t low buf sz =
     map (\<lambda>j. if j < unat sz
              then byte_of_bits (\<lambda>k. bit (buf ! j) k \<and>
                     \<not> (\<exists>p \<in> {7..unat (Erat_limit t)}.
                           is_prime p \<and> p dvd bitNumber low j k \<and> p * p \<le> bitNumber low j k))
              else buf ! j) [0..<length buf]"

definition ref_env :: env where
  "ref_env =
     \<lparr>new_PreSieve = (\<lambda>limit. Inr \<lparr>PreSieve_limit = limit\<rparr>),
      doIt = ref_doIt,
      times_FACTOR_ERATSMALL = (\<lambda>sz. sz div 2),
      times_FACTOR_ERATMEDIUM = (\<lambda>sz. sz * 6),
      new_EratSmall = (\<lambda>stop sz limit. Inr \<lparr>Erat_limit = limit\<rparr>),
      new_EratMedium = (\<lambda>stop sz limit. Inr \<lparr>Erat_limit = limit\<rparr>),
      new_EratBig = (\<lambda>stop sz limit. Inr \<lparr>Erat_limit = limit\<rparr>),
      crossOff_small = ref_crossOff,
      crossOff_medium = ref_crossOff,
      crossOff_big = (\<lambda>t low buf. ref_crossOff t low buf (word_of_nat (length buf))),
      new_fails = (\<lambda>n. False),
      uninitialized = (\<lambda>i. 0xAA)\<rparr>"

definition failing_env :: env where
  \<comment> \<open>The reference collaborators, but the medium engine cannot be allocated.\<close>
  "failing_env = ref_env\<lparr>new_EratMedium := (\<lambda>stop sz limit. Inl bad_alloc)\<rparr>"

section \<open>Notions for the claims about construction\<close>

definition owned_tiers :: "SieveOfEratosthenes \<Rightarrow> heap" where
  \<comment> \<open>The tier objects an orchestrator points to.\<close>
  "owned_tiers s =
     (case eratBig_m s of None \<Rightarrow> [] | Some t \<Rightarrow> [EratBigObj t]) @
     (case eratMedium_m s of None \<Rightarrow> [] | Some t \<Rightarrow> [EratMediumObj t]) @
     (case eratSmall_m s of None \<Rightarrow> [] | Some t \<Rightarrow> [EratSmallObj t])"

definition tier_fails :: "env \<Rightarrow> SieveOfEratosthenes \<Rightarrow> error \<Rightarrow> bool" where
  \<comment> \<open>The constructor of one of the tiers that the cascade reaches throws \<open>e\<close>.\<close>
  "tier_fails E s e =
     (let esLimit = times_FACTOR_ERATSMALL E (sieveSize_m s);
          emLimit = times_FACTOR_ERATMEDIUM E (sieveSize_m s);
          small = new_EratSmall E (stop_m s) (sieveSize_m s) esLimit;
          medium = new_EratMedium E (stop_m s) (sieveSize_m s) emLimit;
          big = new_EratBig E (stop_m s) (sieveSize_m s) (sqrtStop_m s)
      in sqrtStop_m s > PreSieve_limit (preSieve_m s) \<and>
         (small = Inl e \<or>
          (\<exists>es. small = Inr es \<and> sqrtStop_m s > Erat_limit es \<and>
             (medium = Inl e \<or>
              (\<exists>em. medium = Inr em \<and> sqrtStop_m s > Erat_limit em \<and> big = Inl e)))))"

section \<open>Notions for the claims about segments\<close>

definition valid_input :: "uint64_t \<Rightarrow> uint64_t \<Rightarrow> bool" where
  \<comment> \<open>The preconditions on the range: \<open>7 \<le> start \<le> stop \<le> 2^64 - 10 * 2^32\<close>.\<close>
  "valid_input start stop \<longleftrightarrow>
     7 \<le> unat start \<and> unat start \<le> unat stop \<and> unat stop \<le> 2 ^ 64 - 10 * 2 ^ 32"

definition window :: "SieveOfEratosthenes \<Rightarrow> bool" where
  \<comment> \<open>The invariant of the segment window, as an equation of natural numbers: nothing
      wraps around.\<close>
  "window s \<longleftrightarrow>
     unat (segmentHigh_m s) = unat (segmentLow_m s) + unat (sieveSize_m s) * 30 + 1"

inductive finish_step :: "env \<Rightarrow> SieveOfEratosthenes \<Rightarrow> SieveOfEratosthenes \<Rightarrow> bool"
  for E :: env where
  \<comment> \<open>One round of the loop of \<^verbatim>\<open>finish\<close>: a full segment is sieved and the window
      advances.\<close>
  "segmentHigh_m s < stop_m s \<Longrightarrow> sieveSegment E s = Some s1 \<Longrightarrow> finish_step E s (advance s1)"

definition keeps_length :: "env \<Rightarrow> SieveOfEratosthenes \<Rightarrow> bool" where
  \<comment> \<open>The pre-sieve and the tiers of \<open>s\<close> write into the buffer they are given: they
      return a buffer of the same length.\<close>
  "keeps_length E s \<longleftrightarrow>
     (\<forall>buf sz low. length (doIt E (preSieve_m s) buf sz low) = length buf) \<and>
     (\<forall>t low buf sz. eratSmall_m s = Some t \<longrightarrow>
         length (crossOff_small E t low buf sz) = length buf) \<and>
     (\<forall>t low buf sz. eratMedium_m s = Some t \<longrightarrow>
         length (crossOff_medium E t low buf sz) = length buf) \<and>
     (\<forall>t low buf. eratBig_m s = Some t \<longrightarrow>
         length (crossOff_big E t low buf) = length buf)"

definition clears_only :: "env \<Rightarrow> SieveOfEratosthenes \<Rightarrow> bool" where
  \<comment> \<open>The tiers of \<open>s\<close> cross off: they set no bit.\<close>
  "clears_only E s \<longleftrightarrow>
     (\<forall>t low buf sz j k. eratSmall_m s = Some t \<longrightarrow> j < length buf \<longrightarrow>
         bit (crossOff_small E t low buf sz ! j) k \<longrightarrow> bit (buf ! j) k) \<and>
     (\<forall>t low buf sz j k. eratMedium_m s = Some t \<longrightarrow> j < length buf \<longrightarrow>
         bit (crossOff_medium E t low buf sz ! j) k \<longrightarrow> bit (buf ! j) k) \<and>
     (\<forall>t low buf j k. eratBig_m s = Some t \<longrightarrow> j < length buf \<longrightarrow>
         bit (crossOff_big E t low buf ! j) k \<longrightarrow> bit (buf ! j) k)"

definition doIt_contract :: "env \<Rightarrow> PreSieve \<Rightarrow> bool" where
  \<comment> \<open>The contract of the pre-sieve: in the first \<open>sz\<close> bytes of the buffer it returns,
      the bit of a number above the limit is set exactly if no prime from 7 up to the
      limit divides the number. (The bits of numbers up to the limit are left open: a
      pattern may or may not cross off the small primes themselves.)\<close>
  "doIt_contract E ps \<longleftrightarrow>
     (\<forall>buf sz low. length (doIt E ps buf sz low) = length buf \<and>
        (\<forall>j k. j < unat sz \<longrightarrow> j < length buf \<longrightarrow> k < 8 \<longrightarrow>
           unat (PreSieve_limit ps) < bitNumber low j k \<longrightarrow>
             (bit (doIt E ps buf sz low ! j) k \<longleftrightarrow>
                \<not> (\<exists>p. is_prime p \<and> 7 \<le> p \<and> p \<le> unat (PreSieve_limit ps) \<and>
                         p dvd bitNumber low j k))))"

definition tier_contract ::
  "nat \<Rightarrow> nat \<Rightarrow> (uint64_t \<Rightarrow> uint8_t list \<Rightarrow> uint_t \<Rightarrow> uint8_t list) \<Rightarrow> bool" where
  \<comment> \<open>The contract of a tier whose sieving primes are those in \<open>(lo, hi]\<close>: in the first
      \<open>sz\<close> bytes it only clears bits, it clears no bit of a prime, and it clears the bit
      of every number that has a prime factor \<open>p\<close> of the band with \<open>p * p\<close> not above the
      number.\<close>
  "tier_contract lo hi crossOff \<longleftrightarrow>
     (\<forall>low buf sz. length (crossOff low buf sz) = length buf \<and>
        (\<forall>j k. j < unat sz \<longrightarrow> j < length buf \<longrightarrow> k < 8 \<longrightarrow>
           (bit (crossOff low buf sz ! j) k \<longrightarrow> bit (buf ! j) k) \<and>
           (bit (buf ! j) k \<longrightarrow> is_prime (bitNumber low j k) \<longrightarrow>
              bit (crossOff low buf sz ! j) k) \<and>
           ((\<exists>p. is_prime p \<and> lo < p \<and> p \<le> hi \<and> p dvd bitNumber low j k \<and>
                  p * p \<le> bitNumber low j k) \<longrightarrow>
              \<not> bit (crossOff low buf sz ! j) k)))"

definition cascade_contract :: "env \<Rightarrow> SieveOfEratosthenes \<Rightarrow> bool" where
  \<comment> \<open>The tiers that \<open>s\<close> owns keep their contracts. The band of the small tier begins
      above the limit of the pre-sieve, the band of each later tier above the limit of the
      tier before it; the band of the big tier ends at \<open>sqrtStop\<close>, the limit it was
      constructed with.\<close>
  "cascade_contract E s \<longleftrightarrow>
     (\<forall>es. eratSmall_m s = Some es \<longrightarrow>
        tier_contract (unat (PreSieve_limit (preSieve_m s))) (unat (Erat_limit es))
          (crossOff_small E es)) \<and>
     (\<forall>es em. eratSmall_m s = Some es \<longrightarrow> eratMedium_m s = Some em \<longrightarrow>
        tier_contract (unat (Erat_limit es)) (unat (Erat_limit em)) (crossOff_medium E em)) \<and>
     (\<forall>em eb. eratMedium_m s = Some em \<longrightarrow> eratBig_m s = Some eb \<longrightarrow>
        tier_contract (unat (Erat_limit em)) (unat (sqrtStop_m s))
          (\<lambda>low buf sz. crossOff_big E eb low buf))"

definition cascade_built :: "SieveOfEratosthenes \<Rightarrow> bool" where
  \<comment> \<open>The shape of the cascade that \<^verbatim>\<open>initEratAlgorithms\<close> leaves: a tier is absent only
      when \<open>sqrtStop\<close> does not exceed the limit reached before it, and then the later
      tiers are absent too.\<close>
  "cascade_built s \<longleftrightarrow>
     (case eratSmall_m s of
        None \<Rightarrow> \<not> sqrtStop_m s > PreSieve_limit (preSieve_m s) \<and>
                eratMedium_m s = None \<and> eratBig_m s = None
      | Some es \<Rightarrow>
         (case eratMedium_m s of
            None \<Rightarrow> \<not> sqrtStop_m s > Erat_limit es \<and> eratBig_m s = None
          | Some em \<Rightarrow>
             (case eratBig_m s of
                None \<Rightarrow> \<not> sqrtStop_m s > Erat_limit em
              | Some eb \<Rightarrow> True)))"

definition constructed :: "SieveOfEratosthenes \<Rightarrow> bool" where
  \<comment> \<open>What the proofs about \<^verbatim>\<open>finish\<close> use of an orchestrator that the constructor
      built from a valid range.\<close>
  "constructed s \<longleftrightarrow>
     valid_input (start_m s) (stop_m s) \<and>
     segmentLow_m s = start_m s - getByteRemainder (start_m s) \<and>
     window s \<and>
     1024 \<le> unat (sieveSize_m s) \<and> unat (sieveSize_m s) \<le> 4194304 \<and>
     8 dvd unat (sieveSize_m s) \<and>
     length (sieve_m s) = unat (sieveSize_m s)"

definition loop_inv :: "SieveOfEratosthenes \<Rightarrow> SieveOfEratosthenes \<Rightarrow> bool" where
  \<comment> \<open>The invariant of the loop of \<^verbatim>\<open>finish\<close>, relative to the constructed state.\<close>
  "loop_inv s0 s \<longleftrightarrow>
     start_m s = start_m s0 \<and> stop_m s = stop_m s0 \<and> sqrtStop_m s = sqrtStop_m s0 \<and>
     preSieve_m s = preSieve_m s0 \<and> sieveSize_m s = sieveSize_m s0 \<and>
     eratSmall_m s = eratSmall_m s0 \<and> eratMedium_m s = eratMedium_m s0 \<and>
     eratBig_m s = eratBig_m s0 \<and>
     length (sieve_m s) = length (sieve_m s0) \<and>
     window s \<and> 30 dvd unat (segmentLow_m s) \<and>
     unat (segmentLow_m s0) \<le> unat (segmentLow_m s) \<and>
     (segmentLow_m s = segmentLow_m s0 \<or>
      unat (start_m s0) < unat (segmentLow_m s) \<and>
      unat (segmentLow_m s) + 1 < unat (stop_m s0))"

section \<open>The byte remainder\<close>

lemma getByteRemainder_unat:
  "unat (getByteRemainder n) =
     (if unat n mod 30 \<le> 1 then unat n mod 30 + 30 else unat n mod 30)"
proof -
  have m: "unat (n mod 30) = unat n mod 30"
    by (simp add: unat_mod_distrib)
  show ?thesis
  proof (cases "unat n mod 30 \<le> 1")
    case True
    then have "n mod 30 \<le> 1" using m by (simp add: word_le_nat_alt)
    moreover have "unat (n mod 30 + 30) = unat n mod 30 + 30"
      using True m by (simp add: unat_word_ariths)
    ultimately show ?thesis using True
      by (simp add: getByteRemainder_def NUMBERS_PER_BYTE_def Let_def)
  next
    case False
    then have "\<not> n mod 30 \<le> 1" using m by (simp add: word_le_nat_alt)
    then show ?thesis using False m
      by (simp add: getByteRemainder_def NUMBERS_PER_BYTE_def Let_def)
  qed
qed

lemma getByteRemainder_range:
  "2 \<le> unat (getByteRemainder n)" "unat (getByteRemainder n) \<le> 31"
proof -
  have "unat n mod 30 < 30" by simp
  then show "2 \<le> unat (getByteRemainder n)" "unat (getByteRemainder n) \<le> 31"
    unfolding getByteRemainder_unat by (auto split: if_splits)
qed



lemma unat_ucast_up: "unat (ucast (a :: uint_t) :: uint64_t) = unat a"
  by (simp add: unsigned_ucast_eq take_bit_nat_eq_self_iff unsigned_less [of a, THEN less_trans])

lemma unat_ucast_down: "unat (ucast (a :: uint64_t) :: uint_t) = unat a mod 2 ^ 32"
  by (simp add: unsigned_ucast_eq take_bit_eq_mod)

lemma bitValues_bounds:
  "a \<in> set bitValues \<Longrightarrow> 7 \<le> unat a \<and> unat a \<le> 31"
  by (auto simp: bitValues_def)

lemma landsOnOrBetween_iff: "landsOnOrBetween r \<longleftrightarrow> 7 \<le> unat r \<and> unat r \<le> 31"
proof
  assume "landsOnOrBetween r"
  then consider a where "a \<in> set bitValues" "r = ucast a"
    | a b where "a \<in> set bitValues" "b \<in> set bitValues" "ucast a < r" "r < ucast b"
    unfolding landsOnOrBetween_def by blast
  then show "7 \<le> unat r \<and> unat r \<le> 31"
  proof cases
    case 1
    then show ?thesis using bitValues_bounds [of a] by (simp add: unat_ucast_up)
  next
    case 2
    then have "unat a < unat r" "unat r < unat b"
      by (simp_all add: word_less_nat_alt unat_ucast_up)
    then show ?thesis using bitValues_bounds [of a] bitValues_bounds [of b] 2(1,2) by linarith
  qed
next
  assume r: "7 \<le> unat r \<and> unat r \<le> 31"
  show "landsOnOrBetween r"
  proof (cases "unat r = 7 \<or> unat r = 31")
    case True
    then have "r = 7 \<or> r = 31" by (auto simp: word_unat_eq_iff)
    then have "r \<in> ucast ` set bitValues" by (auto simp: bitValues_def)
    then show ?thesis by (simp add: landsOnOrBetween_def)
  next
    case False
    then have "ucast (7 :: uint_t) < r \<and> r < ucast (31 :: uint_t)"
      using r by (simp add: word_less_nat_alt)
    moreover have "(7 :: uint_t) \<in> set bitValues" "(31 :: uint_t) \<in> set bitValues"
      by (simp_all add: bitValues_def)
    ultimately show ?thesis unfolding landsOnOrBetween_def by blast
  qed
qed

text \<open>
  Claim C9, as amended. For every 64-bit \<open>n\<close> the byte remainder is \<open>n mod 30\<close>, with
  the remainders 0 and 1 folded upward by 30; it lies between 2 and 31; and it is either
  below the smallest offset 7 (the remainders 2 to 6), or one of the eight offsets, or
  strictly between two of them.
\<close>

theorem getByteRemainder_spec:
  "unat (getByteRemainder n) =
      (if unat n mod 30 \<le> 1 then unat n mod 30 + 30 else unat n mod 30)
   \<and> 2 \<le> unat (getByteRemainder n) \<and> unat (getByteRemainder n) \<le> 31
   \<and> (unat (getByteRemainder n) < 7 \<or> landsOnOrBetween (getByteRemainder n))"
  using getByteRemainder_range [of n] getByteRemainder_unat [of n]
  by (simp add: landsOnOrBetween_iff) linarith

text \<open>An instance of the amended claim C9: 61 has the byte remainder 31.\<close>

theorem getByteRemainder_spec_witness:
  "unat (getByteRemainder 61) = 31 \<and> landsOnOrBetween (getByteRemainder 61)"
proof -
  have "unat (61 :: uint64_t) mod 30 = 1" by simp
  then show ?thesis using getByteRemainder_spec [of 61] by auto
qed

text \<open>
  Claim C9 as the spec words it fails for the remainders 2 to 6: the byte remainder of 2
  is 2, which is neither an offset nor between two offsets.
\<close>

theorem getByteRemainder_below_offsets:
  "getByteRemainder 2 = 2 \<and> \<not> landsOnOrBetween (getByteRemainder 2)"
  by code_simp

section \<open>The size of the sieve\<close>

lemma floorPowerOf2_nat_pow:
  "1 \<le> n \<Longrightarrow> \<exists>k. floorPowerOf2_nat n = 2 ^ k \<and> 2 ^ k \<le> n \<and> n < 2 ^ (k + 1)"
proof (induction n rule: floorPowerOf2_nat.induct)
  case (1 n)
  show ?case
  proof (cases "n < 2")
    case True
    with 1(2) have "n = 1" by simp
    then have "floorPowerOf2_nat n = 2 ^ 0 \<and> 2 ^ 0 \<le> n \<and> n < 2 ^ (0 + 1)"
      by (simp add: floorPowerOf2_nat.simps)
    then show ?thesis by blast
  next
    case False
    then have "1 \<le> n div 2" by simp
    with 1(1) False obtain k where k: "floorPowerOf2_nat (n div 2) = 2 ^ k"
      "2 ^ k \<le> n div 2" "n div 2 < 2 ^ (k + 1)" by blast
    have "floorPowerOf2_nat n = 2 ^ (k + 1)"
      using False k(1) by (subst floorPowerOf2_nat.simps) simp
    moreover have "2 ^ (k + 1) \<le> n" using k(2) by simp
    moreover have "n < 2 ^ (k + 1 + 1)" using k(3) by simp
    ultimately show ?thesis by blast
  qed
qed

lemma pow2_le_imp_exp_le: "(2::nat) ^ k \<le> 2 ^ m \<Longrightarrow> k \<le> m"
  by simp

lemma getInBetween_floorPowerOf2:
  "\<exists>k. k \<le> 12 \<and> getInBetween 1 (floorPowerOf2 x) 4096 = 2 ^ k \<and>
       (1 \<le> x \<and> x < 8192 \<longrightarrow> 2 ^ k \<le> x \<and> x < 2 ^ (k + 1))"
proof (cases "x < 1")
  case True
  then have "getInBetween 1 (floorPowerOf2 x) 4096 = 2 ^ 0"
    by (simp add: getInBetween_def floorPowerOf2_def)
  then show ?thesis using True by (intro exI [of _ 0]) simp
next
  case False
  then have "1 \<le> nat x" by simp
  then obtain k where k: "floorPowerOf2_nat (nat x) = 2 ^ k" "2 ^ k \<le> nat x"
    "nat x < 2 ^ (k + 1)"
    using floorPowerOf2_nat_pow by blast
  have fp: "floorPowerOf2 x = 2 ^ k" using False k(1) by (simp add: floorPowerOf2_def)
  have xk: "2 ^ k \<le> x" "x < 2 ^ (k + 1)"
  proof -
    have "int (2 ^ k) \<le> int (nat x)" using k(2) by (simp only: of_nat_le_iff)
    then show "2 ^ k \<le> x" using False by simp
    have "int (nat x) < int (2 ^ (k + 1))" using k(3) by (simp only: of_nat_less_iff)
    then show "x < 2 ^ (k + 1)" using False by simp
  qed
  show ?thesis
  proof (cases "k \<le> 12")
    case True
    then have "(2::int) ^ k \<le> 2 ^ 12" by (simp only: power_increasing_iff) 
    moreover have "\<not> (2::int) ^ k < 1" by (simp add: not_less)
    ultimately have "getInBetween 1 (floorPowerOf2 x) 4096 = 2 ^ k"
      unfolding fp by (simp add: getInBetween_def)
    then show ?thesis using True xk by blast
  next
    case k13: False
    then have "13 \<le> k" by simp
    then have "(2::int) ^ 13 \<le> 2 ^ k" by (simp only: power_increasing_iff)
    then have big: "(8192::int) \<le> 2 ^ k" by simp
    then have "getInBetween 1 (floorPowerOf2 x) 4096 = 2 ^ 12"
      unfolding fp by (simp add: getInBetween_def)
    moreover have "\<not> x < 8192" using big xk(1) by linarith
    ultimately show ?thesis by (intro exI [of _ 12]) simp
  qed
qed

lemma ctor_sieveSize_pow:
  "\<exists>k. 10 \<le> k \<and> k \<le> 22 \<and> unat (ctor_sieveSize req) = 2 ^ k \<and>
       int (unat (ctor_sieveSize req)) = 1024 * getInBetween 1 (floorPowerOf2 (sint req)) 4096 \<and>
       (1 \<le> sint req \<and> sint req < 8192 \<longrightarrow>
          2 ^ k \<le> 1024 * sint req \<and> 1024 * sint req < 2 ^ (k + 1))"
proof -
  obtain k where k: "k \<le> 12" "getInBetween 1 (floorPowerOf2 (sint req)) 4096 = 2 ^ k"
    "1 \<le> sint req \<and> sint req < 8192 \<longrightarrow> 2 ^ k \<le> sint req \<and> sint req < 2 ^ (k + 1)"
    using getInBetween_floorPowerOf2 by blast
  have le: "(2::nat) ^ k \<le> 2 ^ 12" using k(1) by (simp only: power_increasing_iff)
  define a :: uint_t where "a = word_of_int (2 ^ k)"
  have "a = word_of_nat (2 ^ k)" unfolding a_def by simp
  then have "unat a = 2 ^ k mod 2 ^ 32" by (simp only: unat_of_nat) simp
  moreover have "(2::nat) ^ k < 2 ^ 32" using le by simp
  ultimately have ua: "unat a = 2 ^ k" by (simp only: mod_less)
  have "unat a * unat (1024 :: uint_t) < 2 ^ LENGTH(32)"
    unfolding ua using le by simp
  then have "unat (a * 1024) = unat a * unat (1024 :: uint_t)"
    by (rule unat_mult_lem [THEN iffD1])
  then have u2: "unat (a * 1024) = 2 ^ k * 1024" unfolding ua by simp
  have u: "unat (ctor_sieveSize req) = 2 ^ (k + 10)"
    unfolding ctor_sieveSize_def k(2) a_def [symmetric] u2 by (simp add: power_add)
  have "int (unat (ctor_sieveSize req)) = 1024 * 2 ^ k"
    unfolding u by (simp add: power_add)
  moreover have "1 \<le> sint req \<and> sint req < 8192 \<longrightarrow>
          2 ^ (k + 10) \<le> 1024 * sint req \<and> 1024 * sint req < 2 ^ (k + 10 + 1)"
    using k(3) by (simp add: power_add)
  ultimately show ?thesis using u k(1,2) by (intro exI [of _ "k + 10"]) simp
qed

section \<open>Construction and the tier cascade\<close>

lemma initEratAlgorithms_try_None:
  assumes "initEratAlgorithms_try E a b s h = (None, s', h')"
  shows "s' = s\<lparr>eratSmall_m := eratSmall_m s', eratMedium_m := eratMedium_m s',
                 eratBig_m := eratBig_m s'\<rparr>"
  using assms unfolding initEratAlgorithms_try_def
  by (auto simp: Let_def split: if_splits sum.splits)


lemma initEratAlgorithms_Inr:
  assumes "initEratAlgorithms E s h = (Inr s', h')"
  shows "s' = s\<lparr>eratSmall_m := eratSmall_m s', eratMedium_m := eratMedium_m s',
                 eratBig_m := eratBig_m s'\<rparr>"
  using assms initEratAlgorithms_try_None [of E _ _ s h s' h']
  unfolding initEratAlgorithms_def
  by (simp add: Let_def split: prod.splits option.splits)

lemma initEratAlgorithms_no_tier:
  assumes "\<not> sqrtStop_m s > PreSieve_limit (preSieve_m s)"
  shows "initEratAlgorithms E s h = (Inr s, h)"
  using assms by (simp add: initEratAlgorithms_def initEratAlgorithms_try_def)

lemma initEratAlgorithms_cascade:
  assumes "eratSmall_m s = None" "eratMedium_m s = None" "eratBig_m s = None"
      and "initEratAlgorithms E s h = (Inr s', h')"
  shows "(eratSmall_m s' \<noteq> None \<longleftrightarrow> sqrtStop_m s > PreSieve_limit (preSieve_m s))"
    and "(eratMedium_m s' \<noteq> None \<longleftrightarrow>
            (\<exists>es. eratSmall_m s' = Some es \<and> sqrtStop_m s > Erat_limit es))"
    and "(eratBig_m s' \<noteq> None \<longleftrightarrow>
            (\<exists>em. eratMedium_m s' = Some em \<and> sqrtStop_m s > Erat_limit em))"
    and "h' = owned_tiers s' @ h"
  using assms unfolding initEratAlgorithms_def initEratAlgorithms_try_def owned_tiers_def
  by (auto simp: Let_def split: if_splits sum.splits)

text \<open>
  Claim C5. Starting without tiers, as the constructor does: when \<open>sqrtStop\<close> does not
  exceed the limit of the pre-sieve, nothing is constructed; and whenever the cascade
  succeeds, the small tier exists exactly if \<open>sqrtStop\<close> exceeds the pre-sieve limit, the
  medium tier exactly if the small one exists and \<open>sqrtStop\<close> exceeds its limit, the big
  tier exactly if the medium one exists and \<open>sqrtStop\<close> exceeds its limit; the objects
  added to the heap are these tiers and no others.
\<close>

theorem tier_cascade:
  assumes "eratSmall_m s = None" "eratMedium_m s = None" "eratBig_m s = None"
  shows "(\<not> sqrtStop_m s > PreSieve_limit (preSieve_m s) \<longrightarrow>
            initEratAlgorithms E s h = (Inr s, h))
       \<and> (\<forall>s' h'. initEratAlgorithms E s h = (Inr s', h') \<longrightarrow>
            (eratSmall_m s' \<noteq> None \<longleftrightarrow> sqrtStop_m s > PreSieve_limit (preSieve_m s)) \<and>
            (eratMedium_m s' \<noteq> None \<longleftrightarrow>
               (\<exists>es. eratSmall_m s' = Some es \<and> sqrtStop_m s > Erat_limit es)) \<and>
            (eratBig_m s' \<noteq> None \<longleftrightarrow>
               (\<exists>em. eratMedium_m s' = Some em \<and> sqrtStop_m s > Erat_limit em)) \<and>
            h' = owned_tiers s' @ h)"
proof (intro conjI allI impI)
  assume "\<not> sqrtStop_m s > PreSieve_limit (preSieve_m s)"
  then show "initEratAlgorithms E s h = (Inr s, h)" by (rule initEratAlgorithms_no_tier)
next
  fix s' h' assume i: "initEratAlgorithms E s h = (Inr s', h')"
  show "(eratSmall_m s' \<noteq> None) = (sqrtStop_m s > PreSieve_limit (preSieve_m s))"
    by (rule initEratAlgorithms_cascade(1) [OF assms i])
  show "(eratMedium_m s' \<noteq> None) =
          (\<exists>es. eratSmall_m s' = Some es \<and> sqrtStop_m s > Erat_limit es)"
    by (rule initEratAlgorithms_cascade(2) [OF assms i])
  show "(eratBig_m s' \<noteq> None) =
          (\<exists>em. eratMedium_m s' = Some em \<and> sqrtStop_m s > Erat_limit em)"
    by (rule initEratAlgorithms_cascade(3) [OF assms i])
  show "h' = owned_tiers s' @ h"
    by (rule initEratAlgorithms_cascade(4) [OF assms i])
qed

lemma initEratAlgorithms_fails:
  assumes "eratSmall_m s = None" "eratMedium_m s = None" "eratBig_m s = None"
      and "tier_fails E s e"
  shows "initEratAlgorithms E s h = (Inl e, h)"
  using assms
  unfolding initEratAlgorithms_def initEratAlgorithms_try_def tier_fails_def delete_obj_def
  by (auto simp: Let_def)

lemma members_no_tier:
  "eratSmall_m (SieveOfEratosthenes_members ps start stop sz) = None"
  "eratMedium_m (SieveOfEratosthenes_members ps start stop sz) = None"
  "eratBig_m (SieveOfEratosthenes_members ps start stop sz) = None"
  by (simp_all add: SieveOfEratosthenes_members_def Let_def)

text \<open>
  Claim C6. When the constructor of a tier throws during the construction of the
  orchestrator, the exception leaves the constructor with the heap as it was before:
  the tiers built so far have been deleted, and no object is returned.
\<close>

theorem tier_failure_releases_all:
  assumes "new_PreSieve E preSieveLimit = Inr ps" and "7 \<le> start" and "start \<le> stop"
      and "tier_fails E (SieveOfEratosthenes_members ps start stop sieveSize) e"
  shows "initEratAlgorithms E (SieveOfEratosthenes_members ps start stop sieveSize) h = (Inl e, h)
       \<and> SieveOfEratosthenes_new E start stop sieveSize preSieveLimit h = (Inl e, h)"
proof -
  have i: "initEratAlgorithms E (SieveOfEratosthenes_members ps start stop sieveSize) h = (Inl e, h)"
    using members_no_tier assms(4) by (rule initEratAlgorithms_fails)
  have "\<not> start < 7" "\<not> start > stop" using assms(2,3) by (simp_all add: not_less)
  then show ?thesis using i assms(1) by (simp add: SieveOfEratosthenes_new_def)
qed


lemma SieveOfEratosthenes_new_Inr:
  assumes "SieveOfEratosthenes_new E start stop sieveSize preSieveLimit h = (Inr s, h')"
  obtains ps s1 h1 where "new_PreSieve E preSieveLimit = Inr ps" "7 \<le> start" "start \<le> stop"
    "initEratAlgorithms E (SieveOfEratosthenes_members ps start stop sieveSize) h = (Inr s1, h1)"
    "s = s1\<lparr>sieve_m := map (uninitialized E) [0..<unat (sieveSize_m s1)]\<rparr>"
    "h' = SieveArray (unat (sieveSize_m s1)) # h1"
  using assms unfolding SieveOfEratosthenes_new_def
  by (auto simp: not_less split: sum.splits if_splits prod.splits)



section \<open>Integer square root and examples of construction\<close>

lemma isqrt_bounds: "isqrt n * isqrt n \<le> n \<and> n < (isqrt n + 1) * (isqrt n + 1)"
proof (induction n)
  case 0
  show ?case by simp
next
  case (Suc n)
  then show ?case by (auto simp: Let_def not_le)
qed

lemma isqrt_eqI:
  assumes "r * r \<le> n" "n < (r + 1) * (r + 1)"
  shows "isqrt n = r"
proof (rule ccontr)
  assume ne: "isqrt n \<noteq> r"
  show False
  proof (cases "isqrt n < r")
    case True
    then have "isqrt n + 1 \<le> r" by simp
    then have "(isqrt n + 1) * (isqrt n + 1) \<le> r * r" using mult_le_mono by blast 
    then show False using isqrt_bounds [of n] assms(1) by linarith
  next
    case False
    with ne have "r + 1 \<le> isqrt n" by simp
    then have "(r + 1) * (r + 1) \<le> isqrt n * isqrt n" using mult_le_mono by blast
    then show False using isqrt_bounds [of n] assms(2) by linarith
  qed
qed

lemma isqrt_31: "isqrt 31 = 5" by (rule isqrt_eqI) simp_all
lemma isqrt_million: "isqrt 1000000 = 1000" by (rule isqrt_eqI) simp_all


lemma SieveOfEratosthenes_new_no_tier:
  assumes "new_PreSieve E preSieveLimit = Inr ps" "7 \<le> start" "start \<le> stop"
      and "\<not> sqrtStop_m (SieveOfEratosthenes_members ps start stop sieveSize) > PreSieve_limit ps"
      and "\<not> new_fails E (ctor_sieveSize sieveSize)"
  shows "SieveOfEratosthenes_new E start stop sieveSize preSieveLimit h =
           (Inr ((SieveOfEratosthenes_members ps start stop sieveSize)
                   \<lparr>sieve_m := map (uninitialized E) [0..<unat (ctor_sieveSize sieveSize)]\<rparr>),
            SieveArray (unat (ctor_sieveSize sieveSize)) # h)"
proof -
  let ?s = "SieveOfEratosthenes_members ps start stop sieveSize"
  have p: "preSieve_m ?s = ps" and z: "sieveSize_m ?s = ctor_sieveSize sieveSize"
    by (simp_all add: SieveOfEratosthenes_members_def Let_def)
  have "\<not> sqrtStop_m ?s > PreSieve_limit (preSieve_m ?s)"
    using assms(4) by (simp add: p)
  then have "initEratAlgorithms E ?s h = (Inr ?s, h)"
    by (rule initEratAlgorithms_no_tier)
  moreover have "\<not> start < 7" "\<not> start > stop" using assms(2,3) by (simp_all add: not_less)
  ultimately show ?thesis using assms(1,5) z by (simp add: SieveOfEratosthenes_new_def)
qed

lemma sqrtStop_31: "sqrtStop_m (SieveOfEratosthenes_members ps start 31 sz) = 5"
  by (simp add: SieveOfEratosthenes_members_def Let_def isqrt_31)

lemma sqrtStop_million: "sqrtStop_m (SieveOfEratosthenes_members ps start 1000000 sz) = 1000"
  by (simp add: SieveOfEratosthenes_members_def Let_def isqrt_million)

lemma ref_env_new_7_31:
  assumes "ctor_sieveSize sz = n"
  shows "SieveOfEratosthenes_new ref_env 7 31 sz 13 h =
           (Inr ((SieveOfEratosthenes_members \<lparr>PreSieve_limit = 13\<rparr> 7 31 sz)
                   \<lparr>sieve_m := map (uninitialized ref_env) [0..<unat n]\<rparr>),
            SieveArray (unat n) # h)"
  unfolding assms [symmetric]
  by (rule SieveOfEratosthenes_new_no_tier) (simp_all add: ref_env_def sqrtStop_31)







lemma ctor_sieveSize_1: "ctor_sieveSize 1 = 1024" 
  by (simp add: ctor_sieveSize_def getInBetween_def floorPowerOf2_def floorPowerOf2_nat.simps)

lemma members_million:
  "sqrtStop_m (SieveOfEratosthenes_members \<lparr>PreSieve_limit = 13\<rparr> 7 1000000 1) = 1000"
  "sieveSize_m (SieveOfEratosthenes_members \<lparr>PreSieve_limit = 13\<rparr> 7 1000000 1) = 1024"
  "preSieve_m (SieveOfEratosthenes_members \<lparr>PreSieve_limit = 13\<rparr> 7 1000000 1) =
     \<lparr>PreSieve_limit = 13\<rparr>"
  "stop_m (SieveOfEratosthenes_members \<lparr>PreSieve_limit = 13\<rparr> 7 1000000 1) = 1000000"
  by (simp_all add: SieveOfEratosthenes_members_def Let_def isqrt_million ctor_sieveSize_1)

lemma ref_env_million:
  "initEratAlgorithms ref_env (SieveOfEratosthenes_members \<lparr>PreSieve_limit = 13\<rparr> 7 1000000 1) [] =
     (Inr ((SieveOfEratosthenes_members \<lparr>PreSieve_limit = 13\<rparr> 7 1000000 1)
             \<lparr>eratSmall_m := Some \<lparr>Erat_limit = 512\<rparr>,
              eratMedium_m := Some \<lparr>Erat_limit = 6144\<rparr>\<rparr>),
      [EratMediumObj \<lparr>Erat_limit = 6144\<rparr>, EratSmallObj \<lparr>Erat_limit = 512\<rparr>])"
  by (simp add: initEratAlgorithms_def initEratAlgorithms_try_def members_million ref_env_def
      Let_def)

text \<open>
  An instance of claim C5: with stop one million the square root 1000 exceeds the
  pre-sieve limit 13 and the limit 512 of the small tier, but not the limit 6144 of the
  medium tier.
\<close>

theorem tier_cascade_witness:
  "\<exists>s' h'. initEratAlgorithms ref_env
              (SieveOfEratosthenes_members \<lparr>PreSieve_limit = 13\<rparr> 7 1000000 1) [] = (Inr s', h') \<and>
      eratSmall_m s' \<noteq> None \<and> eratMedium_m s' \<noteq> None \<and> eratBig_m s' = None \<and>
      h' = owned_tiers s' @ []"
proof -
  let ?s = "SieveOfEratosthenes_members \<lparr>PreSieve_limit = 13\<rparr> 7 1000000 1"
  let ?s' = "?s\<lparr>eratSmall_m := Some \<lparr>Erat_limit = 512\<rparr>,
                  eratMedium_m := Some \<lparr>Erat_limit = 6144\<rparr>\<rparr>"
  let ?h' = "[EratMediumObj \<lparr>Erat_limit = 6144\<rparr>, EratSmallObj \<lparr>Erat_limit = 512\<rparr>]"
  have c: "(eratSmall_m ?s' \<noteq> None \<longleftrightarrow> sqrtStop_m ?s > PreSieve_limit (preSieve_m ?s)) \<and>
        (eratMedium_m ?s' \<noteq> None \<longleftrightarrow>
           (\<exists>es. eratSmall_m ?s' = Some es \<and> sqrtStop_m ?s > Erat_limit es)) \<and>
        (eratBig_m ?s' \<noteq> None \<longleftrightarrow>
           (\<exists>em. eratMedium_m ?s' = Some em \<and> sqrtStop_m ?s > Erat_limit em)) \<and>
        ?h' = owned_tiers ?s' @ []"
    using tier_cascade [OF members_no_tier, of "\<lparr>PreSieve_limit = 13\<rparr>" 7 1000000 1 ref_env "[]"]
      ref_env_million by blast
  have "eratSmall_m ?s' \<noteq> None" "eratMedium_m ?s' \<noteq> None" by simp_all
  moreover have "eratBig_m ?s' = None" using c by (simp add: members_million)
  moreover have "?h' = owned_tiers ?s' @ []" using c by blast
  ultimately show ?thesis using ref_env_million by blast
qed

text \<open>
  An instance of claim C6: the medium tier cannot be allocated; the small tier built
  before it is deleted and the heap is empty again.
\<close>

theorem tier_failure_releases_all_witness:
  "tier_fails failing_env (SieveOfEratosthenes_members \<lparr>PreSieve_limit = 13\<rparr> 7 1000000 1) bad_alloc \<and>
   SieveOfEratosthenes_new failing_env 7 1000000 1 13 [] = (Inl bad_alloc, [])"
proof -
  have f: "tier_fails failing_env
             (SieveOfEratosthenes_members \<lparr>PreSieve_limit = 13\<rparr> 7 1000000 1) bad_alloc"
    by (simp add: tier_fails_def members_million failing_env_def ref_env_def Let_def)
  have p: "new_PreSieve failing_env 13 = Inr \<lparr>PreSieve_limit = 13\<rparr>"
    by (simp add: failing_env_def ref_env_def)
  have "(7 :: uint64_t) \<le> 7" "(7 :: uint64_t) \<le> 1000000" by simp_all
  then show ?thesis using tier_failure_releases_all [OF p _ _ f, of "[]"] f by blast
qed

section \<open>The masks and the table loops\<close>

lemma bit_255: "bit (255 :: int) n \<longleftrightarrow> n < 8"
proof -
  have "(255 :: int) = mask 8" by (simp add: mask_eq_exp_minus_1)
  then show ?thesis by (simp only: bit_mask_iff) simp
qed

lemma bit_lower_mask:
  "bit (word_of_int (and (uint (b :: uint8_t)) (push_bit i 0xff)) :: uint8_t) k \<longleftrightarrow> bit b k \<and> i \<le> k"
proof -
  define m :: int where "m = 255"
  have hm: "bit m n \<longleftrightarrow> n < 8" for n unfolding m_def by (rule bit_255)
  have b8: "bit b k \<Longrightarrow> k < 8" using bit_imp_le_length [of b k] by simp
  have "bit (word_of_int (and (uint (b :: uint8_t)) (push_bit i m)) :: uint8_t) k \<longleftrightarrow>
          k < 8 \<and> bit b k \<and> i \<le> k \<and> k - i < 8"
    by (simp only: bit_word_of_int_iff bit_and_iff bit_push_bit_iff bit_uint_iff hm) auto
  also have "\<dots> \<longleftrightarrow> bit b k \<and> i \<le> k" using b8 by auto
  finally show ?thesis unfolding m_def .
qed

lemma bit_upper_mask:
  "bit (word_of_int (and (uint (b :: uint8_t)) (not (push_bit i 0xff))) :: uint8_t) k \<longleftrightarrow> bit b k \<and> k < i"
proof -
  define m :: int where "m = 255"
  have hm: "bit m n \<longleftrightarrow> n < 8" for n unfolding m_def by (rule bit_255)
  have b8: "bit b k \<Longrightarrow> k < 8" using bit_imp_le_length [of b k] by simp
  have "bit (word_of_int (and (uint (b :: uint8_t)) (not (push_bit i m))) :: uint8_t) k \<longleftrightarrow>
          k < 8 \<and> bit b k \<and> \<not> (i \<le> k \<and> k - i < 8)"
    by (simp only: bit_word_of_int_iff bit_and_iff bit_not_iff bit_push_bit_iff bit_uint_iff hm)
       auto
  also have "\<dots> \<longleftrightarrow> bit b k \<and> k < i" using b8 by auto
  finally show ?thesis unfolding m_def .
qed

lemma bit_0xff: "bit (0xff :: uint8_t) k \<longleftrightarrow> k < 8"
proof -
  have "(0xff :: uint8_t) = mask 8" by (simp add: mask_eq_exp_minus_1)
  then show ?thesis by (simp only: bit_mask_iff) simp
qed

lemma bitValues_length: "length bitValues = 8"
  by (simp add: bitValues_def)

lemma bitValues_nth_bounds: "k < 8 \<Longrightarrow> 7 \<le> unat (bitValues ! k) \<and> unat (bitValues ! k) \<le> 31"
  using bitValues_bounds [of "bitValues ! k"] by (simp add: bitValues_length)

lemma bitValues_mono:
  assumes "k \<le> m" "m < 8"
  shows "unat (bitValues ! k) \<le> unat (bitValues ! m)"
proof -
  have "sorted (map unat bitValues)" by (simp add: bitValues_def)
  then have "map unat bitValues ! k \<le> map unat bitValues ! m"
    using assms by (intro sorted_nth_mono) (simp_all add: bitValues_length)
  then show ?thesis using assms by (simp add: bitValues_length)
qed

lemma bitValues_last: "unat (bitValues ! 7) = 31"
  by (simp add: bitValues_def)

lemma ucast_bitValues_less:
  "(ucast (bitValues ! k) :: uint64_t) < r \<longleftrightarrow> unat (bitValues ! k) < unat r"
  by (simp add: word_less_nat_alt unat_ucast_up)

lemma preSieve_loop_Some:
  "preSieve_loop r i = Some m \<Longrightarrow>
     i \<le> m \<and> m < 8 \<and> \<not> unat (bitValues ! m) < unat r \<and>
     (\<forall>k. i \<le> k \<and> k < m \<longrightarrow> unat (bitValues ! k) < unat r)"
proof (induction r i rule: preSieve_loop.induct)
  case (1 r i)
  from "1.prems" have i8: "i < 8"
    by (subst (asm) preSieve_loop.simps) (simp add: bitValues_length split: if_splits)
  show ?case
  proof (cases "unat (bitValues ! i) < unat r")
    case True
    then have rec: "preSieve_loop r (i + 1) = Some m"
      using "1.prems" i8
      by (subst (asm) preSieve_loop.simps) (simp add: bitValues_length ucast_bitValues_less)
    have ih: "i + 1 \<le> m \<and> m < 8 \<and> \<not> unat (bitValues ! m) < unat r \<and>
       (\<forall>k. i + 1 \<le> k \<and> k < m \<longrightarrow> unat (bitValues ! k) < unat r)"
      using "1.IH" i8 True rec by (simp add: bitValues_length ucast_bitValues_less)
    have "unat (bitValues ! k) < unat r" if "i \<le> k \<and> k < m" for k
      using that ih True by (cases "k = i") auto
    then show ?thesis using ih by auto
  next
    case False
    then have "m = i"
      using "1.prems" i8
      by (subst (asm) preSieve_loop.simps) (simp add: bitValues_length ucast_bitValues_less)
    then show ?thesis using False i8 by simp
  qed
qed

lemma preSieve_loop_total:
  "i < 8 \<Longrightarrow> unat r \<le> 31 \<Longrightarrow> \<exists>m. preSieve_loop r i = Some m"
proof (induction r i rule: preSieve_loop.induct)
  case (1 r i)
  show ?case
  proof (cases "unat (bitValues ! i) < unat r")
    case True
    have "i \<noteq> 7" using True "1.prems"(2) bitValues_last by auto
    then have "i + 1 < 8" using "1.prems"(1) by simp
    then obtain m where "preSieve_loop r (i + 1) = Some m"
      using "1.IH" "1.prems" True by (auto simp: bitValues_length ucast_bitValues_less)
    then show ?thesis using True "1.prems"(1)
      by (subst preSieve_loop.simps) (simp add: bitValues_length ucast_bitValues_less)
  next
    case False
    then show ?thesis using "1.prems"(1)
      by (subst preSieve_loop.simps) (simp add: bitValues_length ucast_bitValues_less)
  qed
qed

lemma preSieve_loop_spec:
  assumes "unat r \<le> 31"
  obtains i where "preSieve_loop r 0 = Some i" "i < 8"
    "\<And>k. k < 8 \<Longrightarrow> i \<le> k \<longleftrightarrow> unat r \<le> unat (bitValues ! k)"
proof -
  obtain i where i: "preSieve_loop r 0 = Some i"
    using preSieve_loop_total [of 0 r] assms by auto
  note s = preSieve_loop_Some [OF i]
  have "i \<le> k \<longleftrightarrow> unat r \<le> unat (bitValues ! k)" if "k < 8" for k
  proof
    assume "i \<le> k"
    then have "unat (bitValues ! i) \<le> unat (bitValues ! k)" using that by (rule bitValues_mono)
    then show "unat r \<le> unat (bitValues ! k)" using s by linarith
  next
    assume "unat r \<le> unat (bitValues ! k)"
    then show "i \<le> k" using s by (meson le0 not_le)
  qed
  then show ?thesis using that i s by blast
qed

lemma ucast_bitValues_greater:
  "(ucast (bitValues ! k) :: uint64_t) > r \<longleftrightarrow> unat r < unat (bitValues ! k)"
  by (simp add: word_less_nat_alt unat_ucast_up)

lemma finish_upper_spec_aux:
  "i \<le> 8 \<Longrightarrow> i \<le> finish_upper r i \<and> finish_upper r i \<le> 8 \<and>
     (finish_upper r i < 8 \<longrightarrow> unat r < unat (bitValues ! finish_upper r i)) \<and>
     (\<forall>k. i \<le> k \<and> k < finish_upper r i \<longrightarrow> \<not> unat r < unat (bitValues ! k))"
proof (induction r i rule: finish_upper.induct)
  case (1 r i)
  show ?case
  proof (cases "i < 8")
    case i8: True
    show ?thesis
    proof (cases "unat r < unat (bitValues ! i)")
      case True
      then have "finish_upper r i = i" using i8
        by (subst finish_upper.simps) (simp add: ucast_bitValues_greater)
      then show ?thesis using True i8 by simp
    next
      case False
      then have e: "finish_upper r i = finish_upper r (i + 1)" using i8
        by (subst finish_upper.simps) (simp add: ucast_bitValues_greater)
      have ih: "i + 1 \<le> finish_upper r (i + 1) \<and> finish_upper r (i + 1) \<le> 8 \<and>
         (finish_upper r (i + 1) < 8 \<longrightarrow> unat r < unat (bitValues ! finish_upper r (i + 1))) \<and>
         (\<forall>k. i + 1 \<le> k \<and> k < finish_upper r (i + 1) \<longrightarrow> \<not> unat r < unat (bitValues ! k))"
        using "1.IH" i8 False by (simp add: ucast_bitValues_greater)
      have "\<not> unat r < unat (bitValues ! k)" if "i \<le> k \<and> k < finish_upper r (i + 1)" for k
        using that ih False by (cases "k = i") auto
      then show ?thesis unfolding e using ih by auto
    qed
  next
    case False
    then have "finish_upper r i = i" by (subst finish_upper.simps) simp
    then show ?thesis using False "1.prems" by simp
  qed
qed

lemma finish_upper_spec:
  "finish_upper r 0 \<le> 8"
  "k < 8 \<Longrightarrow> k < finish_upper r 0 \<longleftrightarrow> unat (bitValues ! k) \<le> unat r"
proof -
  note s = finish_upper_spec_aux [of 0 r, simplified]
  show "finish_upper r 0 \<le> 8" using s by simp
  show "k < finish_upper r 0 \<longleftrightarrow> unat (bitValues ! k) \<le> unat r" if "k < 8"
  proof
    assume "k < finish_upper r 0"
    then show "unat (bitValues ! k) \<le> unat r" using s by (simp add: not_less)
  next
    assume a: "unat (bitValues ! k) \<le> unat r"
    show "k < finish_upper r 0"
    proof (rule ccontr)
      assume "\<not> k < finish_upper r 0"
      then have le: "finish_upper r 0 \<le> k" by simp
      then have "finish_upper r 0 < 8" using that by simp
      then have "unat r < unat (bitValues ! finish_upper r 0)" using s by simp
      moreover have "unat (bitValues ! finish_upper r 0) \<le> unat (bitValues ! k)"
        using le that by (rule bitValues_mono)
      ultimately show False using a by linarith
    qed
  qed
qed

section \<open>The pre-sieve step\<close>

lemma preSieve_later:
  assumes "\<not> segmentLow_m s \<le> start_m s"
  shows "preSieve E s =
     Some (s\<lparr>sieve_m := doIt E (preSieve_m s) (sieve_m s) (sieveSize_m s) (segmentLow_m s)\<rparr>)"
  using assms by (simp add: preSieve_def Let_def)

lemma preSieve_first:
  assumes first: "segmentLow_m s \<le> start_m s"
      and b: "doIt E (preSieve_m s) (sieve_m s) (sieveSize_m s) (segmentLow_m s) = b"
      and ne: "b \<noteq> []"
  obtains v where
    "preSieve E s = Some (s\<lparr>sieve_m := b[0 := v]\<rparr>)"
    "\<And>k. bit v k \<longleftrightarrow> k < 8 \<and>
            (start_m s \<le> ucast (PreSieve_limit (preSieve_m s)) \<or> bit (b ! 0) k) \<and>
            unat (getByteRemainder (start_m s)) \<le> unat (bitValues ! k)"
proof -
  obtain i where i: "preSieve_loop (getByteRemainder (start_m s)) 0 = Some i" "i < 8"
    and ik: "\<And>k. k < 8 \<Longrightarrow> i \<le> k \<longleftrightarrow> unat (getByteRemainder (start_m s)) \<le> unat (bitValues ! k)"
    using preSieve_loop_spec [OF getByteRemainder_range(2)] by blast
  let ?c = "start_m s \<le> ucast (PreSieve_limit (preSieve_m s))"
  define b1 where "b1 = (if ?c then b[0 := 0xff] else b)"
  define v :: uint8_t where "v = word_of_int (and (uint (b1 ! 0)) (push_bit i 0xff))"
  have b10: "bit (b1 ! 0) k \<longleftrightarrow> k < 8 \<and> (?c \<or> bit (b ! 0) k)" for k
    using ne bit_imp_le_length [of "b ! 0" k] by (auto simp: b1_def bit_0xff bit_255)
  have upd: "b1[0 := x] = b[0 := x]" for x by (simp add: b1_def)
  have "preSieve E s = Some (s\<lparr>sieve_m := b1[0 := v]\<rparr>)"
    using first b ne i(1) unfolding preSieve_def v_def b1_def
    by (simp add: Let_def)
  then have 1: "preSieve E s = Some (s\<lparr>sieve_m := b[0 := v]\<rparr>)" by (simp only: upd)
  have 2: "bit v k \<longleftrightarrow> k < 8 \<and> (?c \<or> bit (b ! 0) k) \<and>
            unat (getByteRemainder (start_m s)) \<le> unat (bitValues ! k)" for k
    unfolding v_def bit_lower_mask b10 using ik [of k] by auto
  show ?thesis using that 1 2 by blast
qed

lemma byteRemainder_decompose:
  obtains q r where "unat n = 30 * q + r" "r < 30"
    "unat (getByteRemainder n) = (if r \<le> 1 then r + 30 else r)"
proof -
  define q where "q = unat n div 30"
  define r where "r = unat n mod 30"
  have "unat n = 30 * q + r" "r < 30" by (simp_all add: q_def r_def)
  moreover have "unat (getByteRemainder n) = (if r \<le> 1 then r + 30 else r)"
    unfolding r_def by (rule getByteRemainder_unat)
  ultimately show ?thesis using that by blast
qed

lemma unat_sub_byteRemainder:
  assumes "7 \<le> unat n"
  shows "unat (n - getByteRemainder n) = unat n - unat (getByteRemainder n)"
    and "unat (getByteRemainder n) \<le> unat n"
    and "30 dvd unat n - unat (getByteRemainder n)"
proof -
  obtain q r where d: "unat n = 30 * q + r" "r < 30"
    and g: "unat (getByteRemainder n) = (if r \<le> 1 then r + 30 else r)"
    by (rule byteRemainder_decompose)
  show le: "unat (getByteRemainder n) \<le> unat n"
  proof (cases "r \<le> 1")
    case True
    then have "q \<noteq> 0" using assms d by (cases "q = 0") simp_all
    then have "1 \<le> q" by simp
    then show ?thesis unfolding g d(1) using True by simp
  next
    case False
    then show ?thesis unfolding g d(1) by simp
  qed
  then have "getByteRemainder n \<le> n" by (simp add: word_le_nat_alt)
  then show "unat (n - getByteRemainder n) = unat n - unat (getByteRemainder n)"
    by (rule unat_sub)
  show "30 dvd unat n - unat (getByteRemainder n)"
  proof (cases "r \<le> 1")
    case True
    then have "q \<noteq> 0" using assms d by (cases "q = 0") simp_all
    then obtain q' where q: "q = Suc q'" by (cases q) simp_all
    have "unat n - unat (getByteRemainder n) = 30 * q'"
      unfolding g d(1) q using True by simp
    then show ?thesis by simp
  next
    case False
    then have "unat n - unat (getByteRemainder n) = 30 * q"
      unfolding g d(1) by simp
    then show ?thesis by simp
  qed
qed


lemma segmentLow_zero:
  assumes "7 \<le> unat n" "unat n \<le> 29"
  shows "n - getByteRemainder n = 0"
proof -
  obtain q r where d: "unat n = 30 * q + r" "r < 30"
    and g: "unat (getByteRemainder n) = (if r \<le> 1 then r + 30 else r)"
    by (rule byteRemainder_decompose)
  have "q = 0" using assms(2) d by (cases "q = 0") simp_all
  then have "unat (getByteRemainder n) = unat n" using assms(1) d g by simp
  then have "getByteRemainder n = n" by (simp add: word_unat_eq_iff)
  then show ?thesis by simp
qed

text \<open>
  Claim C10. In a segment whose low bound is at or below start, with start at most the
  limit of the pre-sieve, the first byte after \<^verbatim>\<open>preSieve\<close> does not depend on the
  pattern: bit \<open>k\<close> is set exactly if its offset is not below the byte remainder of
  start. For a valid start and a limit below 30 the window of the constructor begins
  at 0, the first byte stands for 7, 11, 13, 17, 19, 23, 29 and 31, and exactly those that
  are not below start remain candidates.
\<close>

theorem preSieve_resets_first_byte:
  assumes "segmentLow_m s \<le> start_m s"
      and "start_m s \<le> ucast (PreSieve_limit (preSieve_m s))"
      and "doIt E (preSieve_m s) (sieve_m s) (sieveSize_m s) (segmentLow_m s) = b"
      and "b \<noteq> []"
  shows "\<exists>v. preSieve E s = Some (s\<lparr>sieve_m := b[0 := v]\<rparr>) \<and>
           (\<forall>k. bit v k \<longleftrightarrow>
                k < 8 \<and> unat (getByteRemainder (start_m s)) \<le> unat (bitValues ! k)) \<and>
           (7 \<le> unat (start_m s) \<and> unat (PreSieve_limit (preSieve_m s)) \<le> 29 \<and>
            segmentLow_m s = start_m s - getByteRemainder (start_m s) \<longrightarrow>
              (\<forall>k. bit v k \<longleftrightarrow>
                  k < 8 \<and> unat (start_m s) \<le> bitNumber (segmentLow_m s) 0 k) \<and>
              (\<forall>k. bitNumber (segmentLow_m s) 0 k = unat (bitValues ! k)))"
proof -
  obtain v where p: "preSieve E s = Some (s\<lparr>sieve_m := b[0 := v]\<rparr>)"
    and v: "\<And>k. bit v k \<longleftrightarrow> k < 8 \<and>
            (start_m s \<le> ucast (PreSieve_limit (preSieve_m s)) \<or> bit (b ! 0) k) \<and>
            unat (getByteRemainder (start_m s)) \<le> unat (bitValues ! k)"
    using preSieve_first [OF assms(1,3,4)] by blast
  have v1: "bit v k \<longleftrightarrow> k < 8 \<and> unat (getByteRemainder (start_m s)) \<le> unat (bitValues ! k)"
    for k
    using v [of k] assms(2) by simp
  have v2: "(\<forall>k. bit v k \<longleftrightarrow> k < 8 \<and> unat (start_m s) \<le> bitNumber (segmentLow_m s) 0 k) \<and>
            (\<forall>k. bitNumber (segmentLow_m s) 0 k = unat (bitValues ! k))"
    if a: "7 \<le> unat (start_m s) \<and> unat (PreSieve_limit (preSieve_m s)) \<le> 29 \<and>
           segmentLow_m s = start_m s - getByteRemainder (start_m s)"
  proof -
    have "unat (start_m s) \<le> unat (PreSieve_limit (preSieve_m s))"
      using assms(2) by (simp add: word_le_nat_alt unat_ucast_up)
    then have s29: "unat (start_m s) \<le> 29" using a by linarith
    have z: "segmentLow_m s = 0" using a segmentLow_zero [OF _ s29] by simp
    then have "getByteRemainder (start_m s) = start_m s" using a by simp
    then show ?thesis using v1 z by (simp add: bitNumber_def)
  qed
  show ?thesis using p v1 v2 by blast
qed

text \<open>
  An instance of claim C10: start 11, pre-sieve limit 13, a buffer of one byte. Whatever
  the pattern is, 7 is no candidate and 11 and 31 are.
\<close>

theorem preSieve_resets_first_byte_witness:
  "\<exists>v. preSieve ref_env
          ((SieveOfEratosthenes_members \<lparr>PreSieve_limit = 13\<rparr> 11 31 1)\<lparr>sieve_m := [0]\<rparr>) =
        Some ((SieveOfEratosthenes_members \<lparr>PreSieve_limit = 13\<rparr> 11 31 1)\<lparr>sieve_m := [v]\<rparr>) \<and>
       \<not> bit v 0 \<and> bit v 1 \<and> bit v 7"
proof -
  let ?s = "(SieveOfEratosthenes_members \<lparr>PreSieve_limit = 13\<rparr> 11 31 1)\<lparr>sieve_m := [0]\<rparr>"
  have g: "getByteRemainder 11 = 11"
    by (simp add: getByteRemainder_def NUMBERS_PER_BYTE_def word_le_nat_alt)
  have f: "start_m ?s = 11" "segmentLow_m ?s = 0" "preSieve_m ?s = \<lparr>PreSieve_limit = 13\<rparr>"
    "sieve_m ?s = [0]"
    by (simp_all add: SieveOfEratosthenes_members_def Let_def g)
  obtain x where x: "doIt ref_env (preSieve_m ?s) (sieve_m ?s) (sieveSize_m ?s) (segmentLow_m ?s) = [x]"
    unfolding f by (simp add: ref_env_def ref_doIt_def)
  have 1: "segmentLow_m ?s \<le> start_m ?s" unfolding f by simp
  have 2: "start_m ?s \<le> ucast (PreSieve_limit (preSieve_m ?s))" unfolding f by simp
  have 3: "[x] \<noteq> []" by simp
  obtain v where p: "preSieve ref_env ?s = Some (?s\<lparr>sieve_m := [x][0 := v]\<rparr>)"
    and v: "\<And>k. bit v k \<longleftrightarrow> k < 8 \<and> unat (getByteRemainder (start_m ?s)) \<le> unat (bitValues ! k)"
    using preSieve_resets_first_byte [OF 1 2 x 3] by blast
  have "\<not> bit v 0" "bit v 1" "bit v 7"
    unfolding v f g by (simp_all add: bitValues_def)
  then show ?thesis using p by auto
qed

section \<open>The constructed state\<close>

lemma unat_times_30:
  assumes "unat (sz :: uint_t) \<le> 4194304"
  shows "unat (ucast (sz * NUMBERS_PER_BYTE) :: uint64_t) = unat sz * 30"
proof -
  have "unat sz * unat (30 :: uint_t) < 2 ^ LENGTH(32)" using assms by simp
  then have "unat (sz * 30) = unat sz * unat (30 :: uint_t)"
    by (rule unat_mult_lem [THEN iffD1])
  then show ?thesis by (simp add: NUMBERS_PER_BYTE_def unat_ucast_up)
qed

lemma unat_add64:
  assumes "unat a + unat b < 2 ^ 64"
  shows "unat (a + b :: uint64_t) = unat a + unat b"
proof -
  have "unat a + unat b < 2 ^ LENGTH(64)" using assms by simp
  then show ?thesis by (rule unat_add_lem [THEN iffD1])
qed

lemma valid_input_bound:
  assumes "valid_input start stop"
  shows "unat stop + 2 ^ 32 < 2 ^ 64" "7 \<le> unat start" "unat start \<le> unat stop"
  using assms by (simp_all add: valid_input_def)

lemma window_intro:
  assumes hi: "hi = lo + ucast (sz * NUMBERS_PER_BYTE :: uint_t) + 1"
      and sz: "unat sz \<le> 4194304"
      and lo: "unat (lo :: uint64_t) + 2 ^ 32 < 2 ^ 64"
  shows "unat hi = unat lo + unat sz * 30 + 1"
proof -
  have m: "unat (ucast (sz * NUMBERS_PER_BYTE) :: uint64_t) = unat sz * 30"
    using sz by (rule unat_times_30)
  have b: "unat sz * 30 + 1 < 2 ^ 32" using sz by simp
  have 1: "unat (lo + ucast (sz * NUMBERS_PER_BYTE)) = unat lo + unat sz * 30"
    unfolding m [symmetric] by (rule unat_add64) (use m b lo in linarith)
  have "unat (lo + ucast (sz * NUMBERS_PER_BYTE) + 1) =
          unat (lo + ucast (sz * NUMBERS_PER_BYTE)) + unat (1 :: uint64_t)"
    by (rule unat_add64) (use 1 b lo in simp)
  then show ?thesis unfolding hi 1 by simp
qed


lemma ctor_sieveSize_bounds:
  "1024 \<le> unat (ctor_sieveSize req)" "unat (ctor_sieveSize req) \<le> 4194304"
  "8 dvd unat (ctor_sieveSize req)"
proof -
  obtain k where k: "10 \<le> k" "k \<le> 22" "unat (ctor_sieveSize req) = 2 ^ k"
    using ctor_sieveSize_pow [of req] by blast
  have "(2::nat) ^ 10 \<le> 2 ^ k" using k(1) by (simp only: power_increasing_iff)
  then show "1024 \<le> unat (ctor_sieveSize req)" unfolding k(3) by simp
  have "(2::nat) ^ k \<le> 2 ^ 22" using k(2) by (simp only: power_increasing_iff)
  then show "unat (ctor_sieveSize req) \<le> 4194304" unfolding k(3) by simp
  have "3 \<le> k" using k(1) by simp
  then have "(2::nat) ^ 3 dvd 2 ^ k" by (rule le_imp_power_dvd)
  then show "8 dvd unat (ctor_sieveSize req)" unfolding k(3) by simp
qed

lemma ctor_state:
  assumes n: "SieveOfEratosthenes_new E start stop sieveSize preSieveLimit h = (Inr s0, h')"
  obtains ps s1 h1 where
    "new_PreSieve E preSieveLimit = Inr ps"
    "initEratAlgorithms E (SieveOfEratosthenes_members ps start stop sieveSize) h = (Inr s1, h1)"
    "start_m s0 = start" "stop_m s0 = stop" "preSieve_m s0 = ps"
    "sqrtStop_m s0 = word_of_nat (isqrt (unat stop))"
    "sieveSize_m s0 = ctor_sieveSize sieveSize"
    "segmentLow_m s0 = start - getByteRemainder start"
    "segmentHigh_m s0 =
       segmentLow_m s0 + ucast (ctor_sieveSize sieveSize * NUMBERS_PER_BYTE) + 1"
    "length (sieve_m s0) = unat (ctor_sieveSize sieveSize)"
    "emitted s0 = []"
    "eratSmall_m s0 = eratSmall_m s1" "eratMedium_m s0 = eratMedium_m s1"
    "eratBig_m s0 = eratBig_m s1"
proof -
  from n obtain ps s1 h1 where p: "new_PreSieve E preSieveLimit = Inr ps"
    and i: "initEratAlgorithms E (SieveOfEratosthenes_members ps start stop sieveSize) h = (Inr s1, h1)"
    and s: "s0 = s1\<lparr>sieve_m := map (uninitialized E) [0..<unat (sieveSize_m s1)]\<rparr>"
    by (rule SieveOfEratosthenes_new_Inr)
  let ?m = "SieveOfEratosthenes_members ps start stop sieveSize"
  note e = initEratAlgorithms_Inr [OF i]
  have f: "start_m s1 = start_m ?m" "stop_m s1 = stop_m ?m" "preSieve_m s1 = preSieve_m ?m"
    "sqrtStop_m s1 = sqrtStop_m ?m" "sieveSize_m s1 = sieveSize_m ?m"
    "segmentLow_m s1 = segmentLow_m ?m" "segmentHigh_m s1 = segmentHigh_m ?m"
    "emitted s1 = emitted ?m"
    by (subst e, simp)+
  have m: "start_m ?m = start" "stop_m ?m = stop" "preSieve_m ?m = ps"
    "sqrtStop_m ?m = word_of_nat (isqrt (unat stop))" "sieveSize_m ?m = ctor_sieveSize sieveSize"
    "segmentLow_m ?m = start - getByteRemainder start"
    "segmentHigh_m ?m =
       start - getByteRemainder start + ucast (ctor_sieveSize sieveSize * NUMBERS_PER_BYTE) + 1"
    "emitted ?m = []"
    by (simp_all add: SieveOfEratosthenes_members_def Let_def)
  show ?thesis
    by (rule that [OF p i]) (simp_all add: s f m)
qed

lemma ctor_fields:
  assumes n: "SieveOfEratosthenes_new E start stop sieveSize preSieveLimit h = (Inr s0, h')"
  shows "start_m s0 = start" "stop_m s0 = stop"
    "sqrtStop_m s0 = word_of_nat (isqrt (unat stop))"
    "sieveSize_m s0 = ctor_sieveSize sieveSize"
    "emitted s0 = []"
    "new_PreSieve E preSieveLimit = Inr (preSieve_m s0)"
proof -
  from n obtain ps s1 h1 where
    "new_PreSieve E preSieveLimit = Inr ps"
    "initEratAlgorithms E (SieveOfEratosthenes_members ps start stop sieveSize) h = (Inr s1, h1)"
    "start_m s0 = start" "stop_m s0 = stop" "preSieve_m s0 = ps"
    "sqrtStop_m s0 = word_of_nat (isqrt (unat stop))"
    "sieveSize_m s0 = ctor_sieveSize sieveSize"
    "segmentLow_m s0 = start - getByteRemainder start"
    "segmentHigh_m s0 =
       segmentLow_m s0 + ucast (ctor_sieveSize sieveSize * NUMBERS_PER_BYTE) + 1"
    "length (sieve_m s0) = unat (ctor_sieveSize sieveSize)"
    "emitted s0 = []"
    by (rule ctor_state)
  then show "start_m s0 = start" "stop_m s0 = stop"
    "sqrtStop_m s0 = word_of_nat (isqrt (unat stop))"
    "sieveSize_m s0 = ctor_sieveSize sieveSize"
    "emitted s0 = []"
    "new_PreSieve E preSieveLimit = Inr (preSieve_m s0)"
    by simp_all
qed

lemma ctor_constructed:
  assumes v: "valid_input start stop"
      and n: "SieveOfEratosthenes_new E start stop sieveSize preSieveLimit h = (Inr s0, h')"
  shows "constructed s0"
proof -
  from n obtain ps s1 h1 where
    f: "start_m s0 = start" "stop_m s0 = stop"
    "sieveSize_m s0 = ctor_sieveSize sieveSize"
    "segmentLow_m s0 = start - getByteRemainder start"
    "segmentHigh_m s0 =
       segmentLow_m s0 + ucast (ctor_sieveSize sieveSize * NUMBERS_PER_BYTE) + 1"
    "length (sieve_m s0) = unat (ctor_sieveSize sieveSize)"
    by (rule ctor_state)
  note b = valid_input_bound [OF v]
  have lo: "unat (segmentLow_m s0) \<le> unat start"
    unfolding f(4) unat_sub_byteRemainder(1) [OF b(2)] by simp
  have "unat (segmentHigh_m s0) = unat (segmentLow_m s0) + unat (ctor_sieveSize sieveSize) * 30 + 1"
    using f(5) ctor_sieveSize_bounds(2) by (rule window_intro) (use lo b in linarith)
  then have "window s0" by (simp add: window_def f)
  then show ?thesis
    unfolding constructed_def f using v ctor_sieveSize_bounds [of sieveSize] f(4) by simp
qed

lemma isqrt_less:
  assumes "n < 2 ^ 64"
  shows "isqrt n < 2 ^ 32"
proof (rule ccontr)
  assume "\<not> isqrt n < 2 ^ 32"
  then have "(2::nat) ^ 32 \<le> isqrt n" by simp
  then have "(2::nat) ^ 32 * 2 ^ 32 \<le> isqrt n * isqrt n" using mult_le_mono by blast
  then have "(2::nat) ^ 64 \<le> n" using isqrt_bounds [of n] by simp
  then show False using assms by simp
qed

lemma unat_sqrtStop: "unat (word_of_nat (isqrt (unat (stop :: uint64_t))) :: uint_t) = isqrt (unat stop)"
proof -
  have "unat stop < 2 ^ 64" using unsigned_less [of stop] by simp
  then have "isqrt (unat stop) < 2 ^ 32" by (rule isqrt_less)
  then show ?thesis by (simp add: unat_of_nat)
qed

section \<open>Crossing off and sieving one segment\<close>

lemma crossOffMultiples_sieve:
  "crossOffMultiples E s = s\<lparr>sieve_m := sieve_m (crossOffMultiples E s)\<rparr>"
  by (simp add: crossOffMultiples_def Let_def split: option.splits)

lemma crossOffMultiples_fields:
  "start_m (crossOffMultiples E s) = start_m s"
  "stop_m (crossOffMultiples E s) = stop_m s"
  "sqrtStop_m (crossOffMultiples E s) = sqrtStop_m s"
  "preSieve_m (crossOffMultiples E s) = preSieve_m s"
  "sieveSize_m (crossOffMultiples E s) = sieveSize_m s"
  "segmentLow_m (crossOffMultiples E s) = segmentLow_m s"
  "segmentHigh_m (crossOffMultiples E s) = segmentHigh_m s"
  "eratSmall_m (crossOffMultiples E s) = eratSmall_m s"
  "eratMedium_m (crossOffMultiples E s) = eratMedium_m s"
  "eratBig_m (crossOffMultiples E s) = eratBig_m s"
  "emitted (crossOffMultiples E s) = emitted s"
  by (subst crossOffMultiples_sieve, simp)+

lemma crossOffMultiples_length:
  assumes "keeps_length E s"
  shows "length (sieve_m (crossOffMultiples E s)) = length (sieve_m s)"
  using assms unfolding keeps_length_def crossOffMultiples_def
  by (simp add: Let_def split: option.splits)

lemma crossOffMultiples_clears:
  assumes k: "keeps_length E s" and c: "clears_only E s"
      and j: "j < length (sieve_m s)"
      and b: "bit (sieve_m (crossOffMultiples E s) ! j) k"
  shows "bit (sieve_m s ! j) k"
proof (cases "eratSmall_m s")
  case None
  then show ?thesis using b by (simp add: crossOffMultiples_def)
next
  case (Some es)
  let ?b1 = "crossOff_small E es (segmentLow_m s) (sieve_m s) (sieveSize_m s)"
  have l1: "length ?b1 = length (sieve_m s)" using k Some by (simp add: keeps_length_def)
  have c1: "bit (?b1 ! j) k \<Longrightarrow> bit (sieve_m s ! j) k"
    using c Some j unfolding clears_only_def by blast
  show ?thesis
  proof (cases "eratMedium_m s")
    case None
    then show ?thesis using b Some c1 by (simp add: crossOffMultiples_def Let_def)
  next
    case em: (Some em)
    let ?b2 = "crossOff_medium E em (segmentLow_m s) ?b1 (sieveSize_m s)"
    have l2: "length ?b2 = length (sieve_m s)" using k em l1 by (simp add: keeps_length_def)
    have c2: "bit (?b2 ! j) k \<Longrightarrow> bit (?b1 ! j) k"
      using c em j l1 unfolding clears_only_def by metis
    show ?thesis
    proof (cases "eratBig_m s")
      case None
      then show ?thesis using b Some em c1 c2 by (simp add: crossOffMultiples_def Let_def)
    next
      case eb: (Some eb)
      let ?b3 = "crossOff_big E eb (segmentLow_m s) ?b2"
      have c3: "bit (?b3 ! j) k \<Longrightarrow> bit (?b2 ! j) k"
        using c eb j l2 unfolding clears_only_def by metis
      show ?thesis using b Some em eb c1 c2 c3 by (simp add: crossOffMultiples_def Let_def)
    qed
  qed
qed

lemma preSieve_sieve:
  assumes "preSieve E s = Some s1"
  shows "s1 = s\<lparr>sieve_m := sieve_m s1\<rparr>"
  using assms unfolding preSieve_def
  by (auto simp: Let_def split: if_splits option.splits)

lemma preSieve_Some:
  assumes k: "keeps_length E s" and ne: "sieve_m s \<noteq> []"
  obtains s1 where "preSieve E s = Some s1" "s1 = s\<lparr>sieve_m := sieve_m s1\<rparr>"
    "length (sieve_m s1) = length (sieve_m s)"
proof -
  let ?b = "doIt E (preSieve_m s) (sieve_m s) (sieveSize_m s) (segmentLow_m s)"
  have l: "length ?b = length (sieve_m s)" using k by (simp add: keeps_length_def)
  then have bne: "?b \<noteq> []" using ne by auto
  show ?thesis
  proof (cases "segmentLow_m s \<le> start_m s")
    case True
    then obtain v where p: "preSieve E s = Some (s\<lparr>sieve_m := ?b[0 := v]\<rparr>)"
      using preSieve_first [OF True refl bne] by blast
    show ?thesis by (rule that [OF p]) (simp_all add: l)
  next
    case False
    then have p: "preSieve E s = Some (s\<lparr>sieve_m := ?b\<rparr>)" by (rule preSieve_later)
    show ?thesis by (rule that [OF p]) (simp_all add: l)
  qed
qed

lemma keeps_length_cong:
  assumes "preSieve_m t = preSieve_m s" "eratSmall_m t = eratSmall_m s"
    "eratMedium_m t = eratMedium_m s" "eratBig_m t = eratBig_m s"
  shows "keeps_length E t = keeps_length E s"
  by (simp add: keeps_length_def assms)

lemma clears_only_cong:
  assumes "eratSmall_m t = eratSmall_m s"
    "eratMedium_m t = eratMedium_m s" "eratBig_m t = eratBig_m s"
  shows "clears_only E t = clears_only E s"
  by (simp add: clears_only_def assms)

lemma cascade_contract_cong:
  assumes "preSieve_m t = preSieve_m s" "sqrtStop_m t = sqrtStop_m s"
    "eratSmall_m t = eratSmall_m s"
    "eratMedium_m t = eratMedium_m s" "eratBig_m t = eratBig_m s"
  shows "cascade_contract E t = cascade_contract E s"
  by (simp add: cascade_contract_def assms)

lemma sieveSegment_Some:
  assumes k: "keeps_length E s" and ne: "sieve_m s \<noteq> []"
  obtains s2 where "preSieve E s = Some s2" "s2 = s\<lparr>sieve_m := sieve_m s2\<rparr>"
    "length (sieve_m s2) = length (sieve_m s)"
    "sieveSegment E s = Some (segmentProcessed (crossOffMultiples E s2))"
proof -
  obtain s2 where p: "preSieve E s = Some s2" "s2 = s\<lparr>sieve_m := sieve_m s2\<rparr>"
    "length (sieve_m s2) = length (sieve_m s)"
    using preSieve_Some [OF k ne] by blast
  have "sieveSegment E s = Some (segmentProcessed (crossOffMultiples E s2))"
    by (simp add: sieveSegment_def p(1))
  then show ?thesis using that p by blast
qed

lemma segmentProcessed_fields:
  "start_m (segmentProcessed s) = start_m s"
  "stop_m (segmentProcessed s) = stop_m s"
  "sqrtStop_m (segmentProcessed s) = sqrtStop_m s"
  "preSieve_m (segmentProcessed s) = preSieve_m s"
  "sieveSize_m (segmentProcessed s) = sieveSize_m s"
  "segmentLow_m (segmentProcessed s) = segmentLow_m s"
  "segmentHigh_m (segmentProcessed s) = segmentHigh_m s"
  "eratSmall_m (segmentProcessed s) = eratSmall_m s"
  "eratMedium_m (segmentProcessed s) = eratMedium_m s"
  "eratBig_m (segmentProcessed s) = eratBig_m s"
  "sieve_m (segmentProcessed s) = sieve_m s"
  "emitted (segmentProcessed s) =
     emitted s @ [(segmentLow_m s, take (unat (sieveSize_m s)) (sieve_m s))]"
  by (simp_all add: segmentProcessed_def)

lemma advance_fields:
  "start_m (advance s) = start_m s"
  "stop_m (advance s) = stop_m s"
  "sqrtStop_m (advance s) = sqrtStop_m s"
  "preSieve_m (advance s) = preSieve_m s"
  "sieveSize_m (advance s) = sieveSize_m s"
  "eratSmall_m (advance s) = eratSmall_m s"
  "eratMedium_m (advance s) = eratMedium_m s"
  "eratBig_m (advance s) = eratBig_m s"
  "sieve_m (advance s) = sieve_m s"
  "emitted (advance s) = emitted s"
  "segmentLow_m (advance s) = segmentLow_m s + ucast (sieveSize_m s * NUMBERS_PER_BYTE)"
  "segmentHigh_m (advance s) = segmentHigh_m s + ucast (sieveSize_m s * NUMBERS_PER_BYTE)"
  by (simp_all add: advance_def)

text \<open>One round of the loop, on natural numbers.\<close>

lemma advance_nat:
  assumes w: "window s" and sz: "unat (sieveSize_m s) \<le> 4194304"
      and lt: "segmentHigh_m s < stop_m s"
      and st: "unat (stop_m s) + 2 ^ 32 < 2 ^ 64"
  shows "unat (segmentLow_m (advance s)) = unat (segmentLow_m s) + unat (sieveSize_m s) * 30"
    and "unat (segmentHigh_m (advance s)) = unat (segmentHigh_m s) + unat (sieveSize_m s) * 30"
    and "window (advance s)"
proof -
  let ?x = "ucast (sieveSize_m s * NUMBERS_PER_BYTE) :: uint64_t"
  have x: "unat ?x = unat (sieveSize_m s) * 30" using sz by (rule unat_times_30)
  have hs: "unat (segmentHigh_m s) < unat (stop_m s)" using lt by (simp add: word_less_nat_alt)
  have hw: "unat (segmentHigh_m s) = unat (segmentLow_m s) + unat (sieveSize_m s) * 30 + 1"
    using w by (simp add: window_def)
  have 1: "unat (segmentLow_m s + ?x) = unat (segmentLow_m s) + unat ?x"
    by (rule unat_add64) (use x hs st hw in linarith)
  have b: "unat (sieveSize_m s) * 30 < 2 ^ 32" using sz by simp
  have 2: "unat (segmentHigh_m s + ?x) = unat (segmentHigh_m s) + unat ?x"
  proof (rule unat_add64)
    have "unat (segmentHigh_m s) + 2 ^ 32 < 2 ^ 64" using hs st by linarith
    then show "unat (segmentHigh_m s) + unat ?x < 2 ^ 64" using x b by linarith
  qed
  show "unat (segmentLow_m (advance s)) = unat (segmentLow_m s) + unat (sieveSize_m s) * 30"
    using 1 x by (simp add: advance_fields)
  show "unat (segmentHigh_m (advance s)) = unat (segmentHigh_m s) + unat (sieveSize_m s) * 30"
    using 2 x by (simp add: advance_fields)
  then show "window (advance s)"
    using 1 x hw by (simp add: window_def advance_fields)
qed


lemma constructed_facts:
  assumes "constructed s0"
  shows "7 \<le> unat (start_m s0)" "unat (start_m s0) \<le> unat (stop_m s0)"
    "unat (stop_m s0) + 2 ^ 32 < 2 ^ 64"
    "unat (segmentLow_m s0) + unat (getByteRemainder (start_m s0)) = unat (start_m s0)"
    "30 dvd unat (segmentLow_m s0)"
    "window s0" "1024 \<le> unat (sieveSize_m s0)" "unat (sieveSize_m s0) \<le> 4194304"
    "8 dvd unat (sieveSize_m s0)" "length (sieve_m s0) = unat (sieveSize_m s0)"
proof -
  have v: "valid_input (start_m s0) (stop_m s0)" using assms by (simp add: constructed_def)
  note b = valid_input_bound [OF v]
  show "7 \<le> unat (start_m s0)" "unat (start_m s0) \<le> unat (stop_m s0)"
    "unat (stop_m s0) + 2 ^ 32 < 2 ^ 64" by (rule b)+
  have lo: "segmentLow_m s0 = start_m s0 - getByteRemainder (start_m s0)"
    using assms by (simp add: constructed_def)
  show "unat (segmentLow_m s0) + unat (getByteRemainder (start_m s0)) = unat (start_m s0)"
    unfolding lo unat_sub_byteRemainder(1) [OF b(2)]
    using unat_sub_byteRemainder(2) [OF b(2)] by simp
  show "30 dvd unat (segmentLow_m s0)"
    unfolding lo unat_sub_byteRemainder(1) [OF b(2)] by (rule unat_sub_byteRemainder(3) [OF b(2)])
  show "window s0" "1024 \<le> unat (sieveSize_m s0)" "unat (sieveSize_m s0) \<le> 4194304"
    "8 dvd unat (sieveSize_m s0)" "length (sieve_m s0) = unat (sieveSize_m s0)"
    using assms by (simp_all add: constructed_def)
qed

lemma loop_inv_refl: "constructed s0 \<Longrightarrow> loop_inv s0 s0"
  using constructed_facts(5,6) [of s0] by (simp add: loop_inv_def)

lemma loop_inv_first:
  assumes c: "constructed s0" and i: "loop_inv s0 t"
  shows "segmentLow_m t \<le> start_m t \<longleftrightarrow> segmentLow_m t = segmentLow_m s0"
proof -
  have st: "start_m t = start_m s0" using i by (simp add: loop_inv_def)
  have d: "segmentLow_m t = segmentLow_m s0 \<or> unat (start_m s0) < unat (segmentLow_m t)"
    using i by (auto simp: loop_inv_def)
  have l0: "unat (segmentLow_m s0) \<le> unat (start_m s0)" using constructed_facts(4) [OF c] by simp
  show ?thesis using d l0 unfolding st word_le_nat_alt by auto
qed

lemma loop_step:
  assumes c: "constructed s0" and k: "keeps_length E s0" and i: "loop_inv s0 t"
      and lt: "segmentHigh_m t < stop_m t"
  obtains t2 where "preSieve E t = Some t2" "t2 = t\<lparr>sieve_m := sieve_m t2\<rparr>"
    "length (sieve_m t2) = length (sieve_m t)"
    "sieveSegment E t = Some (segmentProcessed (crossOffMultiples E t2))"
    "loop_inv s0 (advance (segmentProcessed (crossOffMultiples E t2)))"
    "unat (stop_m t) - unat (segmentHigh_m (advance (segmentProcessed (crossOffMultiples E t2))))
       < unat (stop_m t) - unat (segmentHigh_m t)"
proof -
  note cf = constructed_facts [OF c]
  have f: "start_m t = start_m s0" "stop_m t = stop_m s0" "sqrtStop_m t = sqrtStop_m s0"
     "preSieve_m t = preSieve_m s0" "sieveSize_m t = sieveSize_m s0"
     "eratSmall_m t = eratSmall_m s0" "eratMedium_m t = eratMedium_m s0"
     "eratBig_m t = eratBig_m s0" "length (sieve_m t) = length (sieve_m s0)"
     "window t" "30 dvd unat (segmentLow_m t)"
     "unat (segmentLow_m s0) \<le> unat (segmentLow_m t)"
    using i by (simp_all add: loop_inv_def)
  have kt: "keeps_length E t" using k keeps_length_cong [OF f(4,6,7,8)] by simp
  have ne: "sieve_m t \<noteq> []" using f(9) cf(7,10) by auto
  obtain t2 where t2: "preSieve E t = Some t2" "t2 = t\<lparr>sieve_m := sieve_m t2\<rparr>"
    "length (sieve_m t2) = length (sieve_m t)"
    "sieveSegment E t = Some (segmentProcessed (crossOffMultiples E t2))"
    using sieveSegment_Some [OF kt ne] by blast
  let ?u = "segmentProcessed (crossOffMultiples E t2)"
  have g: "start_m t2 = start_m t" "stop_m t2 = stop_m t" "sqrtStop_m t2 = sqrtStop_m t"
     "preSieve_m t2 = preSieve_m t" "sieveSize_m t2 = sieveSize_m t"
     "eratSmall_m t2 = eratSmall_m t" "eratMedium_m t2 = eratMedium_m t"
     "eratBig_m t2 = eratBig_m t" "segmentLow_m t2 = segmentLow_m t"
     "segmentHigh_m t2 = segmentHigh_m t"
    by (subst t2(2), simp)+
  have kt2: "keeps_length E t2" using kt keeps_length_cong [OF g(4,6,7,8)] by simp
  have u: "start_m ?u = start_m s0" "stop_m ?u = stop_m s0" "sqrtStop_m ?u = sqrtStop_m s0"
     "preSieve_m ?u = preSieve_m s0" "sieveSize_m ?u = sieveSize_m s0"
     "eratSmall_m ?u = eratSmall_m s0" "eratMedium_m ?u = eratMedium_m s0"
     "eratBig_m ?u = eratBig_m s0" "segmentLow_m ?u = segmentLow_m t"
     "segmentHigh_m ?u = segmentHigh_m t"
    by (simp_all add: segmentProcessed_fields crossOffMultiples_fields g f)
  have ul: "length (sieve_m ?u) = length (sieve_m s0)"
    by (simp add: segmentProcessed_fields crossOffMultiples_length [OF kt2] t2(3) f(9))
  have wu: "window ?u" using f(10) by (simp add: window_def u f)
  have ltu: "segmentHigh_m ?u < stop_m ?u" using lt by (simp add: u f)
  have stu: "unat (stop_m ?u) + 2 ^ 32 < 2 ^ 64" using cf(3) by (simp add: u)
  have szu: "unat (sieveSize_m ?u) \<le> 4194304" using cf(8) by (simp add: u)
  note a = advance_nat [OF wu szu ltu stu]
  have hs: "unat (segmentHigh_m t) < unat (stop_m s0)"
    using lt by (simp add: word_less_nat_alt f)
  have hw: "unat (segmentHigh_m t) = unat (segmentLow_m t) + unat (sieveSize_m s0) * 30 + 1"
    using f(10) by (simp add: window_def f)
  have lo': "unat (segmentLow_m (advance ?u)) = unat (segmentLow_m t) + unat (sieveSize_m s0) * 30"
    using a(1) by (simp add: u)
  have hi': "unat (segmentHigh_m (advance ?u)) = unat (segmentHigh_m t) + unat (sieveSize_m s0) * 30"
    using a(2) by (simp add: u)
  have r31: "unat (getByteRemainder (start_m s0)) \<le> 31" by (rule getByteRemainder_range)
  have "loop_inv s0 (advance ?u)"
    unfolding loop_inv_def advance_fields(1-10) u
  proof (intro conjI refl ul a(3))
    show "30 dvd unat (segmentLow_m (advance ?u))" unfolding lo' using f(11) by simp
    show "unat (segmentLow_m s0) \<le> unat (segmentLow_m (advance ?u))"
      unfolding lo' using f(12) by simp
    have "unat (start_m s0) < unat (segmentLow_m (advance ?u))"
      unfolding lo' using f(12) cf(4,7) r31 by linarith
    moreover have "unat (segmentLow_m (advance ?u)) + 1 < unat (stop_m s0)"
      unfolding lo' using hs hw by linarith
    ultimately show "segmentLow_m (advance ?u) = segmentLow_m s0 \<or>
      unat (start_m s0) < unat (segmentLow_m (advance ?u)) \<and>
      unat (segmentLow_m (advance ?u)) + 1 < unat (stop_m s0)" by blast
  qed
  moreover have "unat (stop_m t) - unat (segmentHigh_m (advance ?u))
       < unat (stop_m t) - unat (segmentHigh_m t)"
    unfolding hi' f(2) using hs cf(7) by linarith
  ultimately show ?thesis using that t2 by blast
qed

section \<open>The loop of finish and the last segment\<close>

lemma finish_loop_rule:
  assumes "I s"
      and step: "\<And>t. I t \<Longrightarrow> segmentHigh_m t < stop_m t \<Longrightarrow>
         \<exists>u. sieveSegment E t = Some u \<and> I (advance u) \<and>
             unat (stop_m (advance u)) - unat (segmentHigh_m (advance u))
               < unat (stop_m t) - unat (segmentHigh_m t)"
  shows "\<exists>s'. finish_loop E s = Some s' \<and> I s' \<and> \<not> segmentHigh_m s' < stop_m s'"
  using assms(1)
proof (induction "unat (stop_m s) - unat (segmentHigh_m s)" arbitrary: s rule: less_induct)
  case less
  show ?case
  proof (cases "segmentHigh_m s < stop_m s")
    case True
    obtain u where u: "sieveSegment E s = Some u" "I (advance u)"
      "unat (stop_m (advance u)) - unat (segmentHigh_m (advance u))
         < unat (stop_m s) - unat (segmentHigh_m s)"
      using step [OF less.prems True] by blast
    have "\<exists>s'. finish_loop E (advance u) = Some s' \<and> I s' \<and> \<not> segmentHigh_m s' < stop_m s'"
      using u(3) u(2) by (rule less.hyps)
    then show ?thesis by (subst finish_loop.simps) (simp add: True u(1))
  next
    case False
    then show ?thesis using less.prems by (subst finish_loop.simps) simp
  qed
qed

lemma byteRemainder_split:
  assumes "7 \<le> unat n"
  obtains Q where "unat n = 30 * Q + unat (getByteRemainder n)"
proof -
  obtain Q where "unat n - unat (getByteRemainder n) = 30 * Q"
    using unat_sub_byteRemainder(3) [OF assms] by (auto simp: dvd_def)
  then have "unat n = 30 * Q + unat (getByteRemainder n)"
    using unat_sub_byteRemainder(2) [OF assms] by linarith
  then show ?thesis using that by blast
qed

lemma loop_inv_low_bound:
  assumes c: "constructed s0" and i: "loop_inv s0 t"
  shows "unat (segmentLow_m t) + 2 \<le> unat (stop_m s0)"
proof -
  note cf = constructed_facts [OF c]
  have "segmentLow_m t = segmentLow_m s0 \<or> unat (segmentLow_m t) + 1 < unat (stop_m s0)"
    using i by (auto simp: loop_inv_def)
  then show ?thesis
  proof
    assume "segmentLow_m t = segmentLow_m s0"
    then show ?thesis using cf(2,4) getByteRemainder_range(1) [of "start_m s0"] by simp
  next
    assume "unat (segmentLow_m t) + 1 < unat (stop_m s0)"
    then show ?thesis by simp
  qed
qed

lemma finish_resize_fields:
  "start_m (finish_resize r s) = start_m s"
  "stop_m (finish_resize r s) = stop_m s"
  "sqrtStop_m (finish_resize r s) = sqrtStop_m s"
  "preSieve_m (finish_resize r s) = preSieve_m s"
  "eratSmall_m (finish_resize r s) = eratSmall_m s"
  "eratMedium_m (finish_resize r s) = eratMedium_m s"
  "eratBig_m (finish_resize r s) = eratBig_m s"
  "sieve_m (finish_resize r s) = sieve_m s"
  "emitted (finish_resize r s) = emitted s"
  "segmentLow_m (finish_resize r s) = segmentLow_m s"
  "sieveSize_m (finish_resize r s) =
     (ucast ((stop_m s - r) - segmentLow_m s) :: uint_t) div NUMBERS_PER_BYTE + 1"
  "segmentHigh_m (finish_resize r s) =
     segmentLow_m s + ucast (sieveSize_m (finish_resize r s) * NUMBERS_PER_BYTE) + 1"
  by (simp_all add: finish_resize_def Let_def)

lemma finish_resize_nat:
  assumes c: "constructed s0" and i: "loop_inv s0 t"
      and ge: "\<not> segmentHigh_m t < stop_m t"
  defines "t3 \<equiv> finish_resize (getByteRemainder (stop_m t)) t"
  shows "1 \<le> unat (sieveSize_m t3)" "unat (sieveSize_m t3) \<le> unat (sieveSize_m s0)"
    "unat (segmentLow_m t) + 30 * (unat (sieveSize_m t3) - 1) +
       unat (getByteRemainder (stop_m s0)) = unat (stop_m s0)"
    "window t3"
proof -
  note cf = constructed_facts [OF c]
  have f: "stop_m t = stop_m s0" "sieveSize_m t = sieveSize_m s0" "window t"
    "30 dvd unat (segmentLow_m t)"
    using i by (simp_all add: loop_inv_def)
  define S where "S = unat (sieveSize_m s0)"
  define L where "L = unat (segmentLow_m t)"
  define r where "r = unat (getByteRemainder (stop_m s0))"
  have s7: "7 \<le> unat (stop_m s0)" using cf(1,2) by linarith
  obtain Q where Q: "unat (stop_m s0) = 30 * Q + r"
    unfolding r_def using byteRemainder_split [OF s7] by blast
  obtain m where m: "L = 30 * m" using f(4) by (auto simp: L_def dvd_def)
  have r: "2 \<le> r" "r \<le> 31" unfolding r_def by (rule getByteRemainder_range)+
  have lb: "L + 2 \<le> unat (stop_m s0)" unfolding L_def by (rule loop_inv_low_bound [OF c i])
  have hw: "unat (segmentHigh_m t) = L + S * 30 + 1"
    using f(3) by (simp add: window_def f L_def S_def)
  have ub: "unat (stop_m s0) \<le> L + S * 30 + 1"
    using ge unfolding hw [symmetric] by (simp add: word_less_nat_alt f)
  have mQ: "m \<le> Q" using lb r unfolding Q m by linarith
  have QS: "Q + 1 \<le> m + S" using ub r unfolding Q m by linarith
  have S: "S \<le> 4194304" unfolding S_def by (rule cf(8))
  let ?x = "(stop_m t - getByteRemainder (stop_m t)) - segmentLow_m t"
  have u1: "unat (stop_m s0 - getByteRemainder (stop_m s0)) = 30 * Q"
    unfolding unat_sub_byteRemainder(1) [OF s7] using Q by (simp add: r_def)
  have "segmentLow_m t \<le> stop_m s0 - getByteRemainder (stop_m s0)"
    unfolding word_le_nat_alt u1 using mQ m by (simp add: L_def)
  then have "unat ?x = 30 * Q - L"
    unfolding f(1) using u1 by (simp add: unat_sub L_def)
  then have ux: "unat ?x = 30 * (Q - m)" unfolding m by (simp add: diff_mult_distrib2)
  have small: "30 * (Q - m) < 2 ^ 32" using QS S by simp
  have uy: "unat (ucast ?x :: uint_t) = 30 * (Q - m)"
    unfolding unat_ucast_down ux using small by simp
  have uz: "unat ((ucast ?x :: uint_t) div NUMBERS_PER_BYTE) = Q - m"
    unfolding unat_div uy by (simp add: NUMBERS_PER_BYTE_def)
  have "unat ((ucast ?x :: uint_t) div NUMBERS_PER_BYTE + 1) =
          unat ((ucast ?x :: uint_t) div NUMBERS_PER_BYTE) + unat (1 :: uint_t)"
    by (rule unat_add_lem [THEN iffD1]) (use uz QS S in simp)
  then have n: "unat (sieveSize_m t3) = Q - m + 1"
    unfolding t3_def finish_resize_fields uz by simp
  show "1 \<le> unat (sieveSize_m t3)" unfolding n by simp
  show le: "unat (sieveSize_m t3) \<le> unat (sieveSize_m s0)"
    unfolding n S_def [symmetric] using QS mQ by linarith
  show "unat (segmentLow_m t) + 30 * (unat (sieveSize_m t3) - 1) +
       unat (getByteRemainder (stop_m s0)) = unat (stop_m s0)"
    unfolding n L_def [symmetric] r_def [symmetric] Q m using mQ by simp
  have "unat (segmentHigh_m t3) = unat (segmentLow_m t) + unat (sieveSize_m t3) * 30 + 1"
  proof (rule window_intro)
    show "segmentHigh_m t3 =
       segmentLow_m t + ucast (sieveSize_m t3 * NUMBERS_PER_BYTE) + 1"
      unfolding t3_def by (simp add: finish_resize_fields)
    show "unat (sieveSize_m t3) \<le> 4194304" using le S by (simp add: S_def)
    show "unat (segmentLow_m t) + 2 ^ 32 < 2 ^ 64" using lb cf(3) by (simp add: L_def)
  qed
  then show "window t3" by (simp add: window_def t3_def finish_resize_fields)
qed

lemma roundup8_aligned: "n mod 8 = 0 \<Longrightarrow> 8 * ((n + 7) div 8) = (n::nat)"
proof -
  assume "n mod 8 = 0"
  then obtain q where "n = 8 * q" by (auto simp: mod_eq_0_iff_dvd dvd_def)
  then show ?thesis by simp
qed

lemma roundup8_step:
  assumes "(n::nat) mod 8 \<noteq> 0"
  shows "8 * ((n + 1 + 7) div 8) = 8 * ((n + 7) div 8)" "n < 8 * ((n + 7) div 8)"
proof -
  define q where "q = n div 8"
  define r where "r = n mod 8"
  have n: "n = 8 * q + r" and r: "0 < r" "r < 8" using assms by (simp_all add: q_def r_def)
  have a: "(r + 7) div 8 = 1" using r by simp
  have b: "(r + 8) div 8 = 1" using r by simp
  have 1: "(n + 7) div 8 = q + 1"
    unfolding n using a by (simp add: add.assoc)
  have 2: "(n + 1 + 7) div 8 = q + 1"
    unfolding n using b by (simp add: add.assoc)
  show "8 * ((n + 1 + 7) div 8) = 8 * ((n + 7) div 8)" unfolding 1 2 by simp
  show "n < 8 * ((n + 7) div 8)" unfolding 1 unfolding n using r by simp
qed

lemma roundup8_le:
  assumes "n \<le> S" "8 dvd (S::nat)"
  shows "8 * ((n + 7) div 8) \<le> S"
proof -
  obtain q where S: "S = 8 * q" using assms(2) by (auto simp: dvd_def)
  have "(n + 7) div 8 \<le> (8 * q + 7) div 8" using assms(1) unfolding S by (intro div_le_mono) simp
  also have "\<dots> = q" by simp
  finally show ?thesis unfolding S by simp
qed

lemma roundup8_ge: "(n::nat) \<le> 8 * ((n + 7) div 8)"
proof (cases "n mod 8 = 0")
  case True
  then show ?thesis by (simp add: roundup8_aligned)
next
  case False
  then show ?thesis using roundup8_step(2) [of n] by simp
qed

lemma finish_pad_spec:
  assumes "8 * ((unat j + 7) div 8) \<le> length sieve" "length sieve < 2 ^ 32"
  shows "\<exists>sv. finish_pad sieve j = Some sv \<and> length sv = length sieve \<and>
           (\<forall>i < length sieve. sv ! i =
               (if unat j \<le> i \<and> i < 8 * ((unat j + 7) div 8) then 0 else sieve ! i))"
  using assms
proof (induction sieve j rule: finish_pad.induct)
  case (1 sieve j)
  have m: "unat (j mod 8) = unat j mod 8" by (simp add: unat_mod_distrib)
  show ?case
  proof (cases "j mod 8 = 0")
    case True
    then have "unat j mod 8 = 0" using m by simp
    then have "8 * ((unat j + 7) div 8) = unat j" by (rule roundup8_aligned)
    then show ?thesis using True by (subst finish_pad.simps) auto
  next
    case False
    then have "unat (j mod 8) \<noteq> 0" by (simp only: unat_eq_zero) simp
    then have nz: "unat j mod 8 \<noteq> 0" unfolding m .
    note st = roundup8_step [OF nz]
    have lt: "unat j < length sieve" using st(2) "1.prems"(1) by linarith
    have u: "unat (j + 1) = unat j + 1"
    proof -
      have "unat j + unat (1 :: uint_t) < 2 ^ LENGTH(32)" using "1.prems"(2) lt by simp
      then have "unat (j + 1) = unat j + unat (1 :: uint_t)" by (rule unat_add_lem [THEN iffD1])
      then show ?thesis by simp
    qed
    have R: "8 * ((unat (j + 1) + 7) div 8) = 8 * ((unat j + 7) div 8)"
      unfolding u by (rule st(1))
    have p1: "8 * ((unat (j + 1) + 7) div 8) \<le> length (sieve[unat j := 0])"
      unfolding R using "1.prems"(1) by simp
    have p2: "length (sieve[unat j := 0]) < 2 ^ 32" using "1.prems"(2) by simp
    obtain sv where sv: "finish_pad (sieve[unat j := 0]) (j + 1) = Some sv"
      "length sv = length (sieve[unat j := 0])"
      "\<forall>i < length (sieve[unat j := 0]). sv ! i =
          (if unat (j + 1) \<le> i \<and> i < 8 * ((unat (j + 1) + 7) div 8) then 0
           else sieve[unat j := 0] ! i)"
      using "1.IH" [OF False lt p1 p2] by blast
    have fp: "finish_pad sieve j = Some sv"
      using False lt sv(1) by (subst finish_pad.simps) simp
    define R where "R = 8 * ((unat j + 7) div 8)"
    have sv3: "sv ! i = (if unat j + 1 \<le> i \<and> i < R then 0 else sieve[unat j := 0] ! i)"
      if "i < length sieve" for i
      using sv(3) that unfolding u st(1) R_def [symmetric] by simp
    have jR: "unat j < R" unfolding R_def by (rule st(2))
    have "sv ! i = (if unat j \<le> i \<and> i < R then 0 else sieve ! i)"
      if "i < length sieve" for i
    proof (cases "i = unat j")
      case True
      then show ?thesis using sv3 [OF that] that jR by simp
    next
      case False
      then show ?thesis using sv3 [OF that] that by auto
    qed
    then have "\<forall>i < length sieve. sv ! i =
               (if unat j \<le> i \<and> i < 8 * ((unat j + 7) div 8) then 0 else sieve ! i)"
      unfolding R_def by blast
    then show ?thesis using fp sv(2) by simp
  qed
qed

lemma finish_bounds_spec:
  assumes n1: "1 \<le> unat (sieveSize_m s)"
      and R: "8 * ((unat (sieveSize_m s) + 7) div 8) \<le> length (sieve_m s)"
      and len: "length (sieve_m s) < 2 ^ 32"
  obtains sv where
    "finish_bounds r s = Some (segmentProcessed (s\<lparr>sieve_m := sv\<rparr>))"
    "length sv = length (sieve_m s)"
    "\<And>j k. j < length (sieve_m s) \<Longrightarrow>
       bit (sv ! j) k \<longleftrightarrow>
         (if j = unat (sieveSize_m s) - 1
          then bit (sieve_m s ! j) k \<and> unat (bitValues ! k) \<le> unat r
          else if unat (sieveSize_m s) \<le> j \<and> j < 8 * ((unat (sieveSize_m s) + 7) div 8)
          then False else bit (sieve_m s ! j) k)"
    "\<And>j. unat (sieveSize_m s) \<le> j \<Longrightarrow> j < 8 * ((unat (sieveSize_m s) + 7) div 8) \<Longrightarrow>
       sv ! j = 0"
proof -
  define n where "n = unat (sieveSize_m s)"
  define i where "i = finish_upper r 0"
  have "1 \<le> sieveSize_m s" using n1 by (simp add: word_le_nat_alt)
  then have k: "unat (sieveSize_m s - 1) = n - 1" unfolding n_def by (simp add: unat_sub)
  have nR: "n \<le> 8 * ((n + 7) div 8)" by (rule roundup8_ge)
  have kl: "n - 1 < length (sieve_m s)" using n1 nR R unfolding n_def by linarith
  define b1 where "b1 = (sieve_m s)
    [n - 1 := word_of_int (and (uint (sieve_m s ! (n - 1))) (not (push_bit i 0xff)))]"
  have l1: "length b1 = length (sieve_m s)" by (simp add: b1_def)
  obtain sv where sv: "finish_pad b1 (sieveSize_m s) = Some sv" "length sv = length b1"
    "\<forall>j < length b1. sv ! j =
        (if unat (sieveSize_m s) \<le> j \<and> j < 8 * ((unat (sieveSize_m s) + 7) div 8) then 0
         else b1 ! j)"
    using finish_pad_spec [of "sieveSize_m s" b1] R len unfolding l1 by blast
  have fb: "finish_bounds r s = Some (segmentProcessed (s\<lparr>sieve_m := sv\<rparr>))"
    using kl sv(1) unfolding finish_bounds_def b1_def i_def
    by (simp add: Let_def k)
  have bits: "bit (sv ! j) k \<longleftrightarrow>
         (if j = n - 1 then bit (sieve_m s ! j) k \<and> unat (bitValues ! k) \<le> unat r
          else if n \<le> j \<and> j < 8 * ((n + 7) div 8) then False else bit (sieve_m s ! j) k)"
    if j: "j < length (sieve_m s)" for j k
  proof (cases "j = n - 1")
    case True
    then have "\<not> n \<le> j" using n1 by (simp add: n_def)
    then have "sv ! j = b1 ! j" using sv(3) j l1 by (simp add: n_def)
    also have "\<dots> = word_of_int (and (uint (sieve_m s ! (n - 1))) (not (push_bit i 0xff)))"
      using True kl by (simp add: b1_def)
    finally have e: "sv ! j =
      word_of_int (and (uint (sieve_m s ! (n - 1))) (not (push_bit i 0xff)))" .
    have "bit (sv ! j) k \<longleftrightarrow> bit (sieve_m s ! (n - 1)) k \<and> k < i"
      unfolding e by (rule bit_upper_mask)
    then have "bit (sv ! j) k \<longleftrightarrow> bit (sieve_m s ! j) k \<and> k < i"
      by (simp only: True)
    moreover have "k < i \<longleftrightarrow> unat (bitValues ! k) \<le> unat r" if "bit (sieve_m s ! j) k"
    proof -
      have "k < 8" using bit_imp_le_length [OF that] by simp
      then show ?thesis unfolding i_def by (rule finish_upper_spec(2))
    qed
    ultimately show ?thesis using True by auto
  next
    case False
    then have "b1 ! j = sieve_m s ! j" by (simp add: b1_def)
    then show ?thesis using sv(3) j l1 False by (simp add: n_def)
  qed
  have pad: "sv ! j = 0" if "n \<le> j" "j < 8 * ((n + 7) div 8)" for j
    using sv(3) that R l1 by (simp add: n_def)
  show ?thesis
    by (rule that [OF fb]) (use sv(2) l1 bits pad in \<open>simp_all add: n_def\<close>)
qed

lemma finish_last:
  assumes c: "constructed s0" and k: "keeps_length E s0" and i: "loop_inv s0 t"
      and ge: "\<not> segmentHigh_m t < stop_m t"
  defines "r \<equiv> getByteRemainder (stop_m t)"
  defines "t3 \<equiv> finish_resize r t"
  shows "\<exists>t4 sv.
    preSieve E t3 = Some t4 \<and> t4 = t3\<lparr>sieve_m := sieve_m t4\<rparr> \<and>
    length (sieve_m t4) = length (sieve_m s0) \<and>
    finish_bounds r (crossOffMultiples E t4) =
       Some (segmentProcessed ((crossOffMultiples E t4)\<lparr>sieve_m := sv\<rparr>)) \<and>
    length sv = length (sieve_m s0) \<and>
    (\<forall>j k. j < length (sieve_m s0) \<longrightarrow>
       (bit (sv ! j) k \<longleftrightarrow>
         (if j = unat (sieveSize_m t3) - 1
          then bit (sieve_m (crossOffMultiples E t4) ! j) k \<and> unat (bitValues ! k) \<le> unat r
          else if unat (sieveSize_m t3) \<le> j \<and> j < 8 * ((unat (sieveSize_m t3) + 7) div 8)
          then False else bit (sieve_m (crossOffMultiples E t4) ! j) k))) \<and>
    (\<forall>j. unat (sieveSize_m t3) \<le> j \<longrightarrow> j < 8 * ((unat (sieveSize_m t3) + 7) div 8) \<longrightarrow>
       sv ! j = 0) \<and>
    8 * ((unat (sieveSize_m t3) + 7) div 8) \<le> length (sieve_m s0)"
proof -
  note cf = constructed_facts [OF c]
  have f: "start_m t = start_m s0" "stop_m t = stop_m s0" "sqrtStop_m t = sqrtStop_m s0"
     "preSieve_m t = preSieve_m s0" "sieveSize_m t = sieveSize_m s0"
     "eratSmall_m t = eratSmall_m s0" "eratMedium_m t = eratMedium_m s0"
     "eratBig_m t = eratBig_m s0" "length (sieve_m t) = length (sieve_m s0)"
    using i by (simp_all add: loop_inv_def)
  have n: "1 \<le> unat (sieveSize_m t3)" "unat (sieveSize_m t3) \<le> unat (sieveSize_m s0)"
    unfolding t3_def r_def by (rule finish_resize_nat [OF c i ge])+
  have k3: "keeps_length E t3"
    using k keeps_length_cong [of t3 s0 E] by (simp add: t3_def finish_resize_fields f)
  have ne: "sieve_m t3 \<noteq> []" using f(9) cf(7,10) by (auto simp: t3_def finish_resize_fields)
  obtain t4 where t4: "preSieve E t3 = Some t4" "t4 = t3\<lparr>sieve_m := sieve_m t4\<rparr>"
    "length (sieve_m t4) = length (sieve_m t3)"
    using preSieve_Some [OF k3 ne] by blast
  have g: "preSieve_m t4 = preSieve_m s0" "sieveSize_m t4 = sieveSize_m t3"
     "eratSmall_m t4 = eratSmall_m s0" "eratMedium_m t4 = eratMedium_m s0"
     "eratBig_m t4 = eratBig_m s0"
    by (subst t4(2), simp add: t3_def finish_resize_fields f)+
  have k4: "keeps_length E t4" using k keeps_length_cong [OF g(1,3,4,5)] by simp
  let ?t5 = "crossOffMultiples E t4"
  have l4: "length (sieve_m t4) = length (sieve_m s0)"
    using t4(3) f(9) by (simp add: t3_def finish_resize_fields)
  have l5: "length (sieve_m ?t5) = length (sieve_m s0)"
    using crossOffMultiples_length [OF k4] l4 by simp
  have z5: "sieveSize_m ?t5 = sieveSize_m t3" by (simp add: crossOffMultiples_fields g)
  have R: "8 * ((unat (sieveSize_m t3) + 7) div 8) \<le> length (sieve_m s0)"
    unfolding cf(10) using n(2) cf(9) by (rule roundup8_le)
  have len: "length (sieve_m s0) < 2 ^ 32" unfolding cf(10) using cf(8) by simp
  obtain sv where sv:
    "finish_bounds r ?t5 = Some (segmentProcessed (?t5\<lparr>sieve_m := sv\<rparr>))"
    "length sv = length (sieve_m ?t5)"
    "\<And>j k. j < length (sieve_m ?t5) \<Longrightarrow>
       bit (sv ! j) k \<longleftrightarrow>
         (if j = unat (sieveSize_m ?t5) - 1
          then bit (sieve_m ?t5 ! j) k \<and> unat (bitValues ! k) \<le> unat r
          else if unat (sieveSize_m ?t5) \<le> j \<and> j < 8 * ((unat (sieveSize_m ?t5) + 7) div 8)
          then False else bit (sieve_m ?t5 ! j) k)"
    "\<And>j. unat (sieveSize_m ?t5) \<le> j \<Longrightarrow> j < 8 * ((unat (sieveSize_m ?t5) + 7) div 8) \<Longrightarrow>
       sv ! j = 0"
    using finish_bounds_spec [of ?t5 r] n(1) R len unfolding z5 l5 by blast
  show ?thesis
  proof (intro exI conjI allI impI)
    show "preSieve E t3 = Some t4" "t4 = t3\<lparr>sieve_m := sieve_m t4\<rparr>"
      "length (sieve_m t4) = length (sieve_m s0)"
      "finish_bounds r ?t5 = Some (segmentProcessed (?t5\<lparr>sieve_m := sv\<rparr>))"
      "length sv = length (sieve_m s0)"
      "8 * ((unat (sieveSize_m t3) + 7) div 8) \<le> length (sieve_m s0)"
      using t4(1,2) l4 sv(1,2) l5 R by simp_all
  next
    fix j k assume "j < length (sieve_m s0)"
    then show "bit (sv ! j) k \<longleftrightarrow>
         (if j = unat (sieveSize_m t3) - 1
          then bit (sieve_m ?t5 ! j) k \<and> unat (bitValues ! k) \<le> unat r
          else if unat (sieveSize_m t3) \<le> j \<and> j < 8 * ((unat (sieveSize_m t3) + 7) div 8)
          then False else bit (sieve_m ?t5 ! j) k)"
      using sv(3) [of j k] unfolding z5 l5 by simp
  next
    fix j assume "unat (sieveSize_m t3) \<le> j" "j < 8 * ((unat (sieveSize_m t3) + 7) div 8)"
    then show "sv ! j = 0" using sv(4) [of j] unfolding z5 by simp
  qed
qed

section \<open>The upper bound and the window\<close>

lemma finish_loop_inv:
  assumes c: "constructed s0" and k: "keeps_length E s0"
  obtains t where "finish_loop E s0 = Some t" "loop_inv s0 t" "\<not> segmentHigh_m t < stop_m t"
    "rtranclp (finish_step E) s0 t"
proof -
  let ?I = "\<lambda>t. loop_inv s0 t \<and> rtranclp (finish_step E) s0 t"
  have "\<exists>s'. finish_loop E s0 = Some s' \<and> ?I s' \<and> \<not> segmentHigh_m s' < stop_m s'"
  proof (rule finish_loop_rule)
    show "?I s0" using loop_inv_refl [OF c] by simp
  next
    fix t assume i: "?I t" and lt: "segmentHigh_m t < stop_m t"
    obtain t2 where t2:
      "sieveSegment E t = Some (segmentProcessed (crossOffMultiples E t2))"
      "loop_inv s0 (advance (segmentProcessed (crossOffMultiples E t2)))"
      "unat (stop_m t) - unat (segmentHigh_m (advance (segmentProcessed (crossOffMultiples E t2))))
         < unat (stop_m t) - unat (segmentHigh_m t)"
      using loop_step [OF c k conjunct1 [OF i] lt] by blast
    let ?u = "segmentProcessed (crossOffMultiples E t2)"
    have "finish_step E t (advance ?u)" using lt t2(1) by (rule finish_step.intros)
    then have "rtranclp (finish_step E) s0 (advance ?u)"
      using conjunct2 [OF i] by (rule rtranclp.rtrancl_into_rtrancl [rotated])
    moreover have "stop_m (advance ?u) = stop_m t"
      using t2(2) i by (simp add: loop_inv_def)
    ultimately show "\<exists>u. sieveSegment E t = Some u \<and> ?I (advance u) \<and>
             unat (stop_m (advance u)) - unat (segmentHigh_m (advance u))
               < unat (stop_m t) - unat (segmentHigh_m t)"
      using t2 by auto
  qed
  then show ?thesis using that by blast
qed

lemma bitNumber_bound:
  assumes "k < 8"
  shows "unat low + 30 * j + 7 \<le> bitNumber low j k" "bitNumber low j k \<le> unat low + 30 * j + 31"
  using bitValues_nth_bounds [OF assms] by (simp_all add: bitNumber_def)

text \<open>
  Claim C3. For a valid range, and collaborators that do not resize the buffer,
  \<^verbatim>\<open>finish\<close> returns. Its last segment has at least one byte and is the last one handed
  to the consumer. Every bit set in it stands for a number that is at most stop; a bit
  of the segment as it was sieved (before the mask of the upper bound) survives exactly
  if its number is at most stop; and the bytes from the length of the segment up to the
  next multiple of 8 lie inside the buffer and are zero.
\<close>

theorem final_segment_bounds:
  assumes v: "valid_input start stop"
      and n: "SieveOfEratosthenes_new E start stop sieveSize preSieveLimit h = (Inr s0, h')"
      and k: "keeps_length E s0"
  shows "\<exists>r s5 s'. finish_sieved E s0 = Some (r, s5) \<and> finish E s0 = Some s' \<and>
           sieveSize_m s' = sieveSize_m s5 \<and> segmentLow_m s' = segmentLow_m s5 \<and>
           1 \<le> unat (sieveSize_m s') \<and>
           8 * ((unat (sieveSize_m s') + 7) div 8) \<le> length (sieve_m s') \<and>
           last (emitted s') = (segmentLow_m s', take (unat (sieveSize_m s')) (sieve_m s')) \<and>
           (\<forall>j k. j < unat (sieveSize_m s') \<longrightarrow> bit (sieve_m s' ! j) k \<longrightarrow>
              bitNumber (segmentLow_m s') j k \<le> unat stop) \<and>
           (\<forall>j k. j < unat (sieveSize_m s') \<longrightarrow> k < 8 \<longrightarrow>
              (bit (sieve_m s' ! j) k \<longleftrightarrow>
                 bit (sieve_m s5 ! j) k \<and> bitNumber (segmentLow_m s') j k \<le> unat stop)) \<and>
           (\<forall>j. unat (sieveSize_m s') \<le> j \<longrightarrow> j < 8 * ((unat (sieveSize_m s') + 7) div 8) \<longrightarrow>
              sieve_m s' ! j = 0)"
proof -
  have c: "constructed s0" using v n by (rule ctor_constructed)
  have st: "stop_m s0 = stop" using n by (rule ctor_fields)
  obtain t where t: "finish_loop E s0 = Some t" "loop_inv s0 t" "\<not> segmentHigh_m t < stop_m t"
    using finish_loop_inv [OF c k] by blast
  define r where "r = getByteRemainder (stop_m t)"
  define t3 where "t3 = finish_resize r t"
  obtain t4 sv where t4: "preSieve E t3 = Some t4" "t4 = t3\<lparr>sieve_m := sieve_m t4\<rparr>"
    and l4: "length (sieve_m t4) = length (sieve_m s0)"
    and fb: "finish_bounds r (crossOffMultiples E t4) =
       Some (segmentProcessed ((crossOffMultiples E t4)\<lparr>sieve_m := sv\<rparr>))"
    and lsv: "length sv = length (sieve_m s0)"
    and bits0: "\<forall>j k. j < length (sieve_m s0) \<longrightarrow>
       (bit (sv ! j) k \<longleftrightarrow>
         (if j = unat (sieveSize_m t3) - 1
          then bit (sieve_m (crossOffMultiples E t4) ! j) k \<and> unat (bitValues ! k) \<le> unat r
          else if unat (sieveSize_m t3) \<le> j \<and> j < 8 * ((unat (sieveSize_m t3) + 7) div 8)
          then False else bit (sieve_m (crossOffMultiples E t4) ! j) k))"
    and pad0: "\<forall>j. unat (sieveSize_m t3) \<le> j \<longrightarrow>
       j < 8 * ((unat (sieveSize_m t3) + 7) div 8) \<longrightarrow> sv ! j = 0"
    and R: "8 * ((unat (sieveSize_m t3) + 7) div 8) \<le> length (sieve_m s0)"
    using finish_last [OF c k t(2,3), folded r_def t3_def]
    by (elim exE conjE) (rule that)
  note bits = bits0 [rule_format]
  note pad = pad0 [rule_format]
  let ?t5 = "crossOffMultiples E t4"
  let ?s' = "segmentProcessed (?t5\<lparr>sieve_m := sv\<rparr>)"
  define m where "m = unat (sieveSize_m t3)"
  define L where "L = unat (segmentLow_m t)"
  have stt: "stop_m t = stop" using t(2) st by (simp add: loop_inv_def)
  have nat: "1 \<le> m" "L + 30 * (m - 1) + unat r = unat stop"
    using finish_resize_nat(1,3) [OF c t(2,3)] st stt
    by (simp_all add: m_def L_def r_def t3_def)
  have r2: "2 \<le> unat r" unfolding r_def by (rule getByteRemainder_range)
  have g: "sieveSize_m t4 = sieveSize_m t3" "segmentLow_m t4 = segmentLow_m t"
    by (subst t4(2), simp add: t3_def finish_resize_fields)+
  have f5: "sieveSize_m ?t5 = sieveSize_m t3" "segmentLow_m ?t5 = segmentLow_m t"
    by (simp_all add: crossOffMultiples_fields g)
  have fs: "finish_sieved E s0 = Some (r, ?t5)"
    by (simp add: finish_sieved_def t(1) r_def [symmetric] t3_def [symmetric] t4(1))
  have fin: "finish E s0 = Some ?s'" by (simp add: finish_def fs fb)
  have s': "sieveSize_m ?s' = sieveSize_m t3" "segmentLow_m ?s' = segmentLow_m t"
    "sieve_m ?s' = sv"
    by (simp_all add: segmentProcessed_fields f5)
  have lastE: "last (emitted ?s') = (segmentLow_m ?s', take (unat (sieveSize_m ?s')) (sieve_m ?s'))"
    by (simp add: segmentProcessed_def)
  have mlen: "m \<le> length (sieve_m s0)" using R roundup8_ge [of m] unfolding m_def by linarith
  have exact: "bit (sv ! j) k \<longleftrightarrow>
      bit (sieve_m ?t5 ! j) k \<and> bitNumber (segmentLow_m t) j k \<le> unat stop"
    if j: "j < m" and k8: "k < 8" for j k
  proof (cases "j = m - 1")
    case True
    have "bitNumber (segmentLow_m t) j k \<le> unat stop \<longleftrightarrow> unat (bitValues ! k) \<le> unat r"
      unfolding bitNumber_def True L_def [symmetric] nat(2) [symmetric] by simp
    then show ?thesis using bits [of j k] j mlen True by (simp add: m_def)
  next
    case False
    then have "j + 2 \<le> m" using j by simp
    then have "30 * j + 60 \<le> 30 * m" by simp
    then have "L + 30 * j + 31 \<le> L + 30 * (m - 1) + 1" using nat(1) by (simp add: diff_mult_distrib2)
    then have "bitNumber (segmentLow_m t) j k \<le> unat stop"
      using bitNumber_bound(2) [OF k8, of "segmentLow_m t" j] r2 nat(2) unfolding L_def by linarith
    then show ?thesis using bits [of j k] j mlen False by (simp add: m_def)
  qed
  have sound: "bitNumber (segmentLow_m t) j k \<le> unat stop" if "j < m" "bit (sv ! j) k" for j k
  proof -
    have "k < 8" using bit_imp_le_length [OF that(2)] by simp
    then show ?thesis using exact [OF that(1)] that(2) by simp
  qed
  show ?thesis
  proof (intro exI conjI allI impI)
    show "finish_sieved E s0 = Some (r, ?t5)" by (rule fs)
    show "finish E s0 = Some ?s'" by (rule fin)
    show "sieveSize_m ?s' = sieveSize_m ?t5" by (simp add: s' f5)
    show "segmentLow_m ?s' = segmentLow_m ?t5" by (simp add: s' f5)
    show "1 \<le> unat (sieveSize_m ?s')" using nat(1) by (simp add: s' m_def)
    show "8 * ((unat (sieveSize_m ?s') + 7) div 8) \<le> length (sieve_m ?s')"
      using R by (simp add: s' lsv)
    show "last (emitted ?s') = (segmentLow_m ?s', take (unat (sieveSize_m ?s')) (sieve_m ?s'))"
      by (rule lastE)
  next
    fix j k :: nat assume "j < unat (sieveSize_m ?s')" "bit (sieve_m ?s' ! j) k"
    then show "bitNumber (segmentLow_m ?s') j k \<le> unat stop"
      using sound [of j k] by (simp add: s' m_def)
  next
    fix j k :: nat assume "j < unat (sieveSize_m ?s')" "k < 8"
    then show "bit (sieve_m ?s' ! j) k \<longleftrightarrow>
       bit (sieve_m ?t5 ! j) k \<and> bitNumber (segmentLow_m ?s') j k \<le> unat stop"
      using exact [of j k] by (simp add: s' m_def)
  next
    fix j :: nat assume "unat (sieveSize_m ?s') \<le> j" "j < 8 * ((unat (sieveSize_m ?s') + 7) div 8)"
    then show "sieve_m ?s' ! j = 0" using pad [of j] by (simp add: s')
  qed
qed

lemma bit_byte_of_bits: "bit (byte_of_bits f) k \<longleftrightarrow> k < 8 \<and> f k"
  by (auto simp: byte_of_bits_def bit_horner_sum_bit_word_iff)

lemma ref_doIt_length: "length (ref_doIt ps buf sz low) = length buf"
  by (simp add: ref_doIt_def)

lemma ref_crossOff_length: "length (ref_crossOff t low buf sz) = length buf"
  by (simp add: ref_crossOff_def)

lemma ref_env_keeps_length: "keeps_length ref_env s"
  by (simp add: keeps_length_def ref_env_def ref_doIt_length ref_crossOff_length)

lemma ref_crossOff_clears:
  "j < length buf \<Longrightarrow> bit (ref_crossOff t low buf sz ! j) k \<Longrightarrow> bit (buf ! j) k"
  by (simp add: ref_crossOff_def bit_byte_of_bits split: if_splits)

lemma ref_env_clears_only: "clears_only ref_env s"
  unfolding clears_only_def ref_env_def using ref_crossOff_clears by simp

lemma valid_7_31: "valid_input 7 31"
  by (simp add: valid_input_def)

text \<open>An instance of claim C3: the range from 7 to 31 with the reference collaborators.\<close>

theorem final_segment_bounds_witness:
  "\<exists>s0 h' s'. SieveOfEratosthenes_new ref_env 7 31 1 13 [] = (Inr s0, h') \<and>
      finish ref_env s0 = Some s' \<and> 1 \<le> unat (sieveSize_m s') \<and>
      last (emitted s') = (segmentLow_m s', take (unat (sieveSize_m s')) (sieve_m s'))"
proof -
  obtain s0 h' where n: "SieveOfEratosthenes_new ref_env 7 31 1 13 [] = (Inr s0, h')"
    using ref_env_new_7_31 [OF ctor_sieveSize_1] by blast
  obtain s' where "finish ref_env s0 = Some s'" "1 \<le> unat (sieveSize_m s')"
    "last (emitted s') = (segmentLow_m s', take (unat (sieveSize_m s')) (sieve_m s'))"
    using final_segment_bounds [OF valid_7_31 n ref_env_keeps_length] by blast
  then show ?thesis using n by blast
qed

lemma reach_inv:
  assumes c: "constructed s0" and k: "keeps_length E s0"
      and r: "rtranclp (finish_step E) s0 t"
  shows "loop_inv s0 t"
  using r
proof (induction rule: rtranclp_induct)
  case base
  show ?case using c by (rule loop_inv_refl)
next
  case (step t t')
  from step.hyps(2) obtain s1 where s1: "segmentHigh_m t < stop_m t"
    "sieveSegment E t = Some s1" "t' = advance s1"
    by (auto elim: finish_step.cases)
  obtain t2 where "sieveSegment E t = Some (segmentProcessed (crossOffMultiples E t2))"
      "loop_inv s0 (advance (segmentProcessed (crossOffMultiples E t2)))"
    using loop_step [OF c k step.IH s1(1)] by blast
  then show ?case using s1(2,3) by simp
qed

lemma finish_step_nat:
  assumes c: "constructed s0" and k: "keeps_length E s0" and i: "loop_inv s0 t"
      and s: "finish_step E t t'"
  shows "window t'" "sieveSize_m t' = sieveSize_m t"
    "unat (segmentLow_m t') = unat (segmentLow_m t) + unat (sieveSize_m t) * 30"
proof -
  from s obtain s1 where s1: "segmentHigh_m t < stop_m t"
    "sieveSegment E t = Some s1" "t' = advance s1"
    by (auto elim: finish_step.cases)
  obtain t2 where t2: "t2 = t\<lparr>sieve_m := sieve_m t2\<rparr>"
      "sieveSegment E t = Some (segmentProcessed (crossOffMultiples E t2))"
      "loop_inv s0 (advance (segmentProcessed (crossOffMultiples E t2)))"
    using loop_step [OF c k i s1(1)] by blast
  let ?u = "segmentProcessed (crossOffMultiples E t2)"
  have e: "t' = advance ?u" using s1(2,3) t2(2) by simp
  have g: "sieveSize_m t2 = sieveSize_m t" "segmentLow_m t2 = segmentLow_m t"
    "segmentHigh_m t2 = segmentHigh_m t" "stop_m t2 = stop_m t"
    by (subst t2(1), simp)+
  have u: "sieveSize_m ?u = sieveSize_m t" "segmentLow_m ?u = segmentLow_m t"
    "segmentHigh_m ?u = segmentHigh_m t" "stop_m ?u = stop_m t"
    by (simp_all add: segmentProcessed_fields crossOffMultiples_fields g)
  have f: "window t" "sieveSize_m t = sieveSize_m s0" "stop_m t = stop_m s0"
    using i by (simp_all add: loop_inv_def)
  note cf = constructed_facts [OF c]
  have wu: "window ?u" using f(1) by (simp add: window_def u)
  have szu: "unat (sieveSize_m ?u) \<le> 4194304" using cf(8) by (simp add: u f)
  have ltu: "segmentHigh_m ?u < stop_m ?u" using s1(1) by (simp add: u)
  have stu: "unat (stop_m ?u) + 2 ^ 32 < 2 ^ 64" using cf(3) by (simp add: u f)
  note a = advance_nat [OF wu szu ltu stu]
  show "window t'" unfolding e by (rule a(3))
  show "sieveSize_m t' = sieveSize_m t" unfolding e by (simp add: advance_fields u)
  show "unat (segmentLow_m t') = unat (segmentLow_m t) + unat (sieveSize_m t) * 30"
    unfolding e using a(1) by (simp add: u)
qed

text \<open>
  Claim C7. For a valid range, and collaborators that do not resize the buffer: the
  window invariant holds after construction and in every state that the loop of
  \<^verbatim>\<open>finish\<close> reaches; each round of the loop keeps the size and moves the low bound
  up by exactly 30 times the size; the loop ends in such a state, and the state that
  \<^verbatim>\<open>finish\<close> returns, with the size of the last segment, satisfies the invariant at
  the same low bound. The equations are between natural numbers, so nothing wraps
  around and the low bound never decreases.
\<close>

theorem window_invariant:
  assumes v: "valid_input start stop"
      and n: "SieveOfEratosthenes_new E start stop sieveSize preSieveLimit h = (Inr s0, h')"
      and k: "keeps_length E s0"
  shows "window s0 \<and>
     (\<forall>t. rtranclp (finish_step E) s0 t \<longrightarrow>
        window t \<and> unat (segmentLow_m s0) \<le> unat (segmentLow_m t) \<and>
        (\<forall>t'. finish_step E t t' \<longrightarrow>
           window t' \<and> sieveSize_m t' = sieveSize_m t \<and>
           unat (segmentLow_m t') = unat (segmentLow_m t) + unat (sieveSize_m t) * 30)) \<and>
     (\<exists>t s'. finish_loop E s0 = Some t \<and> rtranclp (finish_step E) s0 t \<and>
        finish E s0 = Some s' \<and> window s' \<and> segmentLow_m s' = segmentLow_m t)"
proof (intro conjI allI impI)
  have c: "constructed s0" using v n by (rule ctor_constructed)
  show "window s0" using c by (simp add: constructed_def)
  {
    fix t assume r: "rtranclp (finish_step E) s0 t"
    have i: "loop_inv s0 t" using c k r by (rule reach_inv)
    show "window t" "unat (segmentLow_m s0) \<le> unat (segmentLow_m t)"
      using i by (simp_all add: loop_inv_def)
    fix t' assume s: "finish_step E t t'"
    show "window t'" "sieveSize_m t' = sieveSize_m t"
      "unat (segmentLow_m t') = unat (segmentLow_m t) + unat (sieveSize_m t) * 30"
      by (rule finish_step_nat [OF c k i s])+
  }
  obtain t where t: "finish_loop E s0 = Some t" "loop_inv s0 t" "\<not> segmentHigh_m t < stop_m t"
    "rtranclp (finish_step E) s0 t"
    using finish_loop_inv [OF c k] by blast
  define r where "r = getByteRemainder (stop_m t)"
  define t3 where "t3 = finish_resize r t"
  obtain t4 sv where t4: "preSieve E t3 = Some t4" "t4 = t3\<lparr>sieve_m := sieve_m t4\<rparr>"
    and fb: "finish_bounds r (crossOffMultiples E t4) =
       Some (segmentProcessed ((crossOffMultiples E t4)\<lparr>sieve_m := sv\<rparr>))"
    using finish_last [OF c k t(2,3), folded r_def t3_def] by blast
  let ?t5 = "crossOffMultiples E t4"
  let ?s' = "segmentProcessed (?t5\<lparr>sieve_m := sv\<rparr>)"
  have w3: "window t3" unfolding t3_def r_def by (rule finish_resize_nat(4) [OF c t(2,3)])
  have g: "sieveSize_m t4 = sieveSize_m t3" "segmentLow_m t4 = segmentLow_m t3"
    "segmentHigh_m t4 = segmentHigh_m t3"
    by (subst t4(2), simp)+
  have s': "sieveSize_m ?s' = sieveSize_m t3" "segmentLow_m ?s' = segmentLow_m t3"
    "segmentHigh_m ?s' = segmentHigh_m t3"
    by (simp_all add: segmentProcessed_fields crossOffMultiples_fields g)
  have fs: "finish_sieved E s0 = Some (r, ?t5)"
    by (simp add: finish_sieved_def t(1) r_def [symmetric] t3_def [symmetric] t4(1))
  have fin: "finish E s0 = Some ?s'" by (simp add: finish_def fs fb)
  have "window ?s'" using w3 by (simp add: window_def s')
  moreover have "segmentLow_m ?s' = segmentLow_m t"
    by (simp add: s' t3_def finish_resize_fields)
  ultimately show "\<exists>t s'. finish_loop E s0 = Some t \<and> rtranclp (finish_step E) s0 t \<and>
        finish E s0 = Some s' \<and> window s' \<and> segmentLow_m s' = segmentLow_m t"
    using t(1,4) fin by blast
qed

text \<open>An instance of claim C7: the range from 7 to 31 with the reference collaborators.\<close>

theorem window_invariant_witness:
  "\<exists>s0 h' s'. SieveOfEratosthenes_new ref_env 7 31 1 13 [] = (Inr s0, h') \<and>
      window s0 \<and> finish ref_env s0 = Some s' \<and> window s'"
proof -
  obtain s0 h' where n: "SieveOfEratosthenes_new ref_env 7 31 1 13 [] = (Inr s0, h')"
    using ref_env_new_7_31 [OF ctor_sieveSize_1] by blast
  obtain s' where "window s0" "finish ref_env s0 = Some s'" "window s'"
    using window_invariant [OF valid_7_31 n ref_env_keeps_length] by blast
  then show ?thesis using n by blast
qed

section \<open>The segments handed to the consumer and the lower bound\<close>

lemma finish_loop_inv_gen:
  assumes c: "constructed s0" and k: "keeps_length E s0" and J0: "J s0"
      and step: "\<And>t t2. loop_inv s0 t \<Longrightarrow> J t \<Longrightarrow> segmentHigh_m t < stop_m t \<Longrightarrow>
          preSieve E t = Some t2 \<Longrightarrow> t2 = t\<lparr>sieve_m := sieve_m t2\<rparr> \<Longrightarrow>
          length (sieve_m t2) = length (sieve_m t) \<Longrightarrow>
          J (advance (segmentProcessed (crossOffMultiples E t2)))"
  shows "\<exists>t. finish_loop E s0 = Some t \<and> loop_inv s0 t \<and> J t \<and> \<not> segmentHigh_m t < stop_m t"
proof -
  let ?I = "\<lambda>t. loop_inv s0 t \<and> J t"
  have "\<exists>s'. finish_loop E s0 = Some s' \<and> ?I s' \<and> \<not> segmentHigh_m s' < stop_m s'"
  proof (rule finish_loop_rule)
    show "?I s0" using loop_inv_refl [OF c] J0 by simp
  next
    fix t assume i: "?I t" and lt: "segmentHigh_m t < stop_m t"
    obtain t2 where t2: "preSieve E t = Some t2" "t2 = t\<lparr>sieve_m := sieve_m t2\<rparr>"
      "length (sieve_m t2) = length (sieve_m t)"
      "sieveSegment E t = Some (segmentProcessed (crossOffMultiples E t2))"
      "loop_inv s0 (advance (segmentProcessed (crossOffMultiples E t2)))"
      "unat (stop_m t) - unat (segmentHigh_m (advance (segmentProcessed (crossOffMultiples E t2))))
         < unat (stop_m t) - unat (segmentHigh_m t)"
      using loop_step [OF c k conjunct1 [OF i] lt] by blast
    let ?u = "segmentProcessed (crossOffMultiples E t2)"
    have "J (advance ?u)"
      using conjunct1 [OF i] conjunct2 [OF i] lt t2(1,2,3) by (rule step)
    moreover have "stop_m (advance ?u) = stop_m t"
      using t2(5) i by (simp add: loop_inv_def)
    ultimately show "\<exists>u. sieveSegment E t = Some u \<and> ?I (advance u) \<and>
             unat (stop_m (advance u)) - unat (segmentHigh_m (advance u))
               < unat (stop_m t) - unat (segmentHigh_m t)"
      using t2 by auto
  qed
  then show ?thesis by blast
qed

lemma finish_result:
  assumes c: "constructed s0" and k: "keeps_length E s0"
      and fl: "finish_loop E s0 = Some t" and i: "loop_inv s0 t"
      and ge: "\<not> segmentHigh_m t < stop_m t"
  defines "t3 \<equiv> finish_resize (getByteRemainder (stop_m t)) t"
  shows "\<exists>t4 sv s'.
    preSieve E t3 = Some t4 \<and> t4 = t3\<lparr>sieve_m := sieve_m t4\<rparr> \<and>
    length (sieve_m t4) = length (sieve_m s0) \<and>
    finish E s0 = Some s' \<and>
    emitted s' = emitted t @ [(segmentLow_m t, take (unat (sieveSize_m t3)) sv)] \<and>
    unat (sieveSize_m t3) \<le> length sv \<and>
    (\<forall>j k. j < unat (sieveSize_m t3) \<longrightarrow>
       (bit (sv ! j) k \<longleftrightarrow>
          bit (sieve_m (crossOffMultiples E t4) ! j) k \<and>
          (j = unat (sieveSize_m t3) - 1 \<longrightarrow>
             unat (bitValues ! k) \<le> unat (getByteRemainder (stop_m s0)))))"
proof -
  define r where "r = getByteRemainder (stop_m t)"
  have t3: "t3 = finish_resize r t" by (simp add: t3_def r_def)
  have st: "stop_m t = stop_m s0" using i by (simp add: loop_inv_def)
  obtain t4 sv where t4: "preSieve E t3 = Some t4" "t4 = t3\<lparr>sieve_m := sieve_m t4\<rparr>"
    and l4: "length (sieve_m t4) = length (sieve_m s0)"
    and fb: "finish_bounds r (crossOffMultiples E t4) =
       Some (segmentProcessed ((crossOffMultiples E t4)\<lparr>sieve_m := sv\<rparr>))"
    and lsv: "length sv = length (sieve_m s0)"
    and bits0: "\<forall>j k. j < length (sieve_m s0) \<longrightarrow>
       (bit (sv ! j) k \<longleftrightarrow>
         (if j = unat (sieveSize_m t3) - 1
          then bit (sieve_m (crossOffMultiples E t4) ! j) k \<and> unat (bitValues ! k) \<le> unat r
          else if unat (sieveSize_m t3) \<le> j \<and> j < 8 * ((unat (sieveSize_m t3) + 7) div 8)
          then False else bit (sieve_m (crossOffMultiples E t4) ! j) k))"
    and pad0: "\<forall>j. unat (sieveSize_m t3) \<le> j \<longrightarrow>
       j < 8 * ((unat (sieveSize_m t3) + 7) div 8) \<longrightarrow> sv ! j = 0"
    and R: "8 * ((unat (sieveSize_m t3) + 7) div 8) \<le> length (sieve_m s0)"
    using finish_last [OF c k i ge, folded r_def, folded t3]
    by (elim exE conjE) (rule that)
  let ?t5 = "crossOffMultiples E t4"
  let ?s' = "segmentProcessed (?t5\<lparr>sieve_m := sv\<rparr>)"
  define m where "m = unat (sieveSize_m t3)"
  have g: "sieveSize_m t4 = sieveSize_m t3" "segmentLow_m t4 = segmentLow_m t"
    "emitted t4 = emitted t"
    by (subst t4(2), simp add: t3 finish_resize_fields)+
  have fs: "finish_sieved E s0 = Some (r, ?t5)"
    by (simp add: finish_sieved_def fl r_def [symmetric] t3 [symmetric] t4(1))
  have fin: "finish E s0 = Some ?s'" by (simp add: finish_def fs fb)
  have em: "emitted ?s' = emitted t @ [(segmentLow_m t, take m sv)]"
    by (simp add: segmentProcessed_def crossOffMultiples_fields g m_def)
  have mlen: "m \<le> length sv" using R roundup8_ge [of m] lsv unfolding m_def by linarith
  have bits: "bit (sv ! j) k \<longleftrightarrow> bit (sieve_m ?t5 ! j) k \<and>
      (j = m - 1 \<longrightarrow> unat (bitValues ! k) \<le> unat (getByteRemainder (stop_m s0)))"
    if "j < m" for j k
    using bits0 [rule_format, of j k] that mlen lsv
    by (auto simp: m_def r_def st)
  show ?thesis
    using t4 l4 fin em mlen bits unfolding m_def by blast
qed

lemma candidates_Nil: "candidates [] = {}"
  by (simp add: candidates_def)

lemma candidates_snoc:
  "candidates (segs @ [(low, buf)]) =
     candidates segs \<union> {n. \<exists>j < length buf. \<exists>k < 8. bit (buf ! j) k \<and> n = bitNumber low j k}"
  by (auto simp: candidates_def)

lemma preSieve_lower:
  assumes c: "constructed s0"
      and st: "start_m u = start_m s0"
      and lo: "segmentLow_m u = segmentLow_m s0 \<or> unat (start_m s0) < unat (segmentLow_m u)"
      and k: "keeps_length E u" and ne: "sieve_m u \<noteq> []"
      and p: "preSieve E u = Some u2"
      and b: "bit (sieve_m u2 ! j) k"
  shows "unat (start_m s0) \<le> bitNumber (segmentLow_m u) j k"
proof -
  note cf = constructed_facts [OF c]
  have k8: "k < 8" using bit_imp_le_length [OF b] by simp
  note bn = bitNumber_bound [OF k8, of "segmentLow_m u" j]
  from lo show ?thesis
  proof
    assume later: "unat (start_m s0) < unat (segmentLow_m u)"
    then show ?thesis using bn(1) by linarith
  next
    assume first: "segmentLow_m u = segmentLow_m s0"
    have le: "segmentLow_m u \<le> start_m u"
      unfolding first st word_le_nat_alt using cf(4) by linarith
    let ?b = "doIt E (preSieve_m u) (sieve_m u) (sieveSize_m u) (segmentLow_m u)"
    have "length ?b = length (sieve_m u)" using k by (simp add: keeps_length_def)
    then have bne: "?b \<noteq> []" using ne by auto
    obtain v where v: "preSieve E u = Some (u\<lparr>sieve_m := ?b[0 := v]\<rparr>)"
      "\<And>k. bit v k \<longleftrightarrow> k < 8 \<and>
            (start_m u \<le> ucast (PreSieve_limit (preSieve_m u)) \<or> bit (?b ! 0) k) \<and>
            unat (getByteRemainder (start_m u)) \<le> unat (bitValues ! k)"
      using preSieve_first [OF le refl bne] by blast
    have "Some u2 = Some (u\<lparr>sieve_m := ?b[0 := v]\<rparr>)" using p v(1) by simp
    then have "u2 = u\<lparr>sieve_m := ?b[0 := v]\<rparr>" by (simp only: option.inject)
    then have u2: "sieve_m u2 = ?b[0 := v]" by simp
    show ?thesis
    proof (cases "j = 0")
      case True
      then have "bit v k" using b u2 bne by simp
      then have "unat (getByteRemainder (start_m s0)) \<le> unat (bitValues ! k)"
        using v(2) [of k] st by simp
      then show ?thesis using cf(4) unfolding True bitNumber_def first by linarith
    next
      case False
      then have "30 \<le> 30 * j" by simp
      moreover have "unat (getByteRemainder (start_m s0)) \<le> 31" by (rule getByteRemainder_range)
      ultimately show ?thesis using bn(1) cf(4) unfolding first by linarith
    qed
  qed
qed

lemma loop_inv_lower:
  assumes "loop_inv s0 t"
  shows "segmentLow_m t = segmentLow_m s0 \<or> unat (start_m s0) < unat (segmentLow_m t)"
  using assms by (auto simp: loop_inv_def)

text \<open>
  Claim C4. For a valid range, collaborators that do not resize the buffer and tiers
  that only clear bits: after the pre-sieve step of the first segment every bit of the
  first byte whose number is below start is clear, and \<^verbatim>\<open>finish\<close> returns with no
  number below start among the candidates of the segments it handed to the consumer.
\<close>

theorem lower_bound_enforced:
  assumes v: "valid_input start stop"
      and n: "SieveOfEratosthenes_new E start stop sieveSize preSieveLimit h = (Inr s0, h')"
      and k: "keeps_length E s0" and co: "clears_only E s0"
  shows "(\<exists>s1. preSieve E s0 = Some s1 \<and>
            (\<forall>k. bitNumber (segmentLow_m s0) 0 k < unat start \<longrightarrow> \<not> bit (sieve_m s1 ! 0) k)) \<and>
         (\<exists>s'. finish E s0 = Some s' \<and> (\<forall>n \<in> candidates (emitted s'). unat start \<le> n))"
proof
  have c: "constructed s0" using v n by (rule ctor_constructed)
  note cf = constructed_facts [OF c]
  have st: "start_m s0 = start" and em0: "emitted s0 = []" using n by (rule ctor_fields)+
  have ne0: "sieve_m s0 \<noteq> []" using cf(7,10) by auto
  obtain s1 where s1: "preSieve E s0 = Some s1"
    using preSieve_Some [OF k ne0] by blast
  have "\<not> bit (sieve_m s1 ! 0) k" if "bitNumber (segmentLow_m s0) 0 k < unat start" for k
    using preSieve_lower [OF c refl _ k ne0 s1, of 0 k] that st by auto
  then show "\<exists>s1. preSieve E s0 = Some s1 \<and>
            (\<forall>k. bitNumber (segmentLow_m s0) 0 k < unat start \<longrightarrow> \<not> bit (sieve_m s1 ! 0) k)"
    using s1 by blast
  let ?J = "\<lambda>t. \<forall>n \<in> candidates (emitted t). unat start \<le> n"
  have seg: "unat start \<le> bitNumber (segmentLow_m u) j k"
    if u: "start_m u = start_m s0" "preSieve_m u = preSieve_m s0"
       "eratSmall_m u = eratSmall_m s0" "eratMedium_m u = eratMedium_m s0"
       "eratBig_m u = eratBig_m s0"
       "segmentLow_m u = segmentLow_m s0 \<or> unat (start_m s0) < unat (segmentLow_m u)"
       "sieve_m u \<noteq> []"
      and p: "preSieve E u = Some u2" "u2 = u\<lparr>sieve_m := sieve_m u2\<rparr>"
       "length (sieve_m u2) = length (sieve_m u)"
      and j: "j < length (sieve_m u)" and b: "bit (sieve_m (crossOffMultiples E u2) ! j) k"
    for u u2 j k
  proof -
    have ku: "keeps_length E u" using k keeps_length_cong [OF u(2,3,4,5)] by simp
    have g: "preSieve_m u2 = preSieve_m u" "eratSmall_m u2 = eratSmall_m u"
      "eratMedium_m u2 = eratMedium_m u" "eratBig_m u2 = eratBig_m u"
      by (subst p(2), simp)+
    have ku2: "keeps_length E u2" using ku keeps_length_cong [OF g] by simp
    have cu2: "clears_only E u2"
      using co clears_only_cong [of u2 s0 E] by (simp add: g u)
    have "bit (sieve_m u2 ! j) k"
      using ku2 cu2 _ b by (rule crossOffMultiples_clears) (use j p(3) in simp)
    then show ?thesis using preSieve_lower [OF c u(1) u(6) ku u(7) p(1)] st by simp
  qed
  have "\<exists>t. finish_loop E s0 = Some t \<and> loop_inv s0 t \<and> ?J t \<and> \<not> segmentHigh_m t < stop_m t"
  proof (rule finish_loop_inv_gen [OF c k])
    show "?J s0" by (simp add: em0 candidates_Nil)
  next
    fix t t2 assume i: "loop_inv s0 t" and J: "?J t"
      and p: "preSieve E t = Some t2" "t2 = t\<lparr>sieve_m := sieve_m t2\<rparr>"
        "length (sieve_m t2) = length (sieve_m t)"
    have f: "start_m t = start_m s0" "preSieve_m t = preSieve_m s0"
       "eratSmall_m t = eratSmall_m s0" "eratMedium_m t = eratMedium_m s0"
       "eratBig_m t = eratBig_m s0" "length (sieve_m t) = length (sieve_m s0)"
      using i by (simp_all add: loop_inv_def)
    have ne: "sieve_m t \<noteq> []" using f(6) ne0 by auto
    have g: "segmentLow_m t2 = segmentLow_m t" "sieveSize_m t2 = sieveSize_m t"
      "emitted t2 = emitted t"
      by (subst p(2), simp)+
    let ?c = "sieve_m (crossOffMultiples E t2)"
    have kt2: "keeps_length E t2"
    proof -
      have "preSieve_m t2 = preSieve_m s0" "eratSmall_m t2 = eratSmall_m s0"
        "eratMedium_m t2 = eratMedium_m s0" "eratBig_m t2 = eratBig_m s0"
        by (subst p(2), simp add: f)+
      then show ?thesis using k keeps_length_cong [of t2 s0 E] by simp
    qed
    have lc: "length ?c = length (sieve_m t)"
      using crossOffMultiples_length [OF kt2] p(3) by simp
    have em: "emitted (advance (segmentProcessed (crossOffMultiples E t2))) =
        emitted t @ [(segmentLow_m t, take (unat (sieveSize_m t)) ?c)]"
      by (simp add: advance_fields segmentProcessed_fields crossOffMultiples_fields g)
    show "?J (advance (segmentProcessed (crossOffMultiples E t2)))"
      unfolding em candidates_snoc
    proof (intro ballI)
      fix n assume "n \<in> candidates (emitted t) \<union>
        {n. \<exists>j<length (take (unat (sieveSize_m t)) ?c). \<exists>k<8.
               bit (take (unat (sieveSize_m t)) ?c ! j) k \<and> n = bitNumber (segmentLow_m t) j k}"
      then consider "n \<in> candidates (emitted t)"
        | j k where "j < length ?c" "j < unat (sieveSize_m t)" "bit (?c ! j) k"
            "n = bitNumber (segmentLow_m t) j k"
        by auto
      then show "unat start \<le> n"
      proof cases
        case 1
        then show ?thesis using J by blast
      next
        case 2
        show ?thesis unfolding 2(4)
          using f(1-5) loop_inv_lower [OF i] ne p _ 2(3)
          by (rule seg) (use 2(1) lc in simp)
      qed
    qed
  qed
  then obtain t where t: "finish_loop E s0 = Some t" "loop_inv s0 t" "?J t"
    "\<not> segmentHigh_m t < stop_m t" by blast
  define t3 where "t3 = finish_resize (getByteRemainder (stop_m t)) t"
  obtain t4 sv s' where t4: "preSieve E t3 = Some t4" "t4 = t3\<lparr>sieve_m := sieve_m t4\<rparr>"
      "length (sieve_m t4) = length (sieve_m s0)"
    and fin: "finish E s0 = Some s'"
    and em: "emitted s' = emitted t @ [(segmentLow_m t, take (unat (sieveSize_m t3)) sv)]"
    and mlen: "unat (sieveSize_m t3) \<le> length sv"
    and bits0: "\<forall>j k. j < unat (sieveSize_m t3) \<longrightarrow>
       (bit (sv ! j) k \<longleftrightarrow>
          bit (sieve_m (crossOffMultiples E t4) ! j) k \<and>
          (j = unat (sieveSize_m t3) - 1 \<longrightarrow>
             unat (bitValues ! k) \<le> unat (getByteRemainder (stop_m s0))))"
    using finish_result [OF c k t(1,2,4), folded t3_def]
    by (elim exE conjE) (rule that)
  have f: "start_m t = start_m s0" "preSieve_m t = preSieve_m s0"
     "eratSmall_m t = eratSmall_m s0" "eratMedium_m t = eratMedium_m s0"
     "eratBig_m t = eratBig_m s0" "length (sieve_m t) = length (sieve_m s0)"
    using t(2) by (simp_all add: loop_inv_def)
  have f3: "start_m t3 = start_m s0" "preSieve_m t3 = preSieve_m s0"
     "eratSmall_m t3 = eratSmall_m s0" "eratMedium_m t3 = eratMedium_m s0"
     "eratBig_m t3 = eratBig_m s0" "length (sieve_m t3) = length (sieve_m s0)"
     "segmentLow_m t3 = segmentLow_m t"
    by (simp_all add: t3_def finish_resize_fields f)
  have ne3: "sieve_m t3 \<noteq> []" using f3(6) ne0 by auto
  have lo3: "segmentLow_m t3 = segmentLow_m s0 \<or> unat (start_m s0) < unat (segmentLow_m t3)"
    unfolding f3(7) by (rule loop_inv_lower [OF t(2)])
  have "?J s'"
    unfolding em candidates_snoc
  proof (intro ballI)
    fix n assume "n \<in> candidates (emitted t) \<union>
        {n. \<exists>j<length (take (unat (sieveSize_m t3)) sv). \<exists>k<8.
               bit (take (unat (sieveSize_m t3)) sv ! j) k \<and> n = bitNumber (segmentLow_m t) j k}"
    then consider "n \<in> candidates (emitted t)"
      | j k where "j < unat (sieveSize_m t3)" "bit (sv ! j) k"
          "n = bitNumber (segmentLow_m t) j k"
      by auto
    then show "unat start \<le> n"
    proof cases
      case 1
      then show ?thesis using t(3) by blast
    next
      case 2
      have b5: "bit (sieve_m (crossOffMultiples E t4) ! j) k"
        using bits0 2(1,2) by blast
      have jl: "j < length (sieve_m t3)"
        using 2(1) finish_resize_nat(2) [OF c t(2,4), folded t3_def] f3(6) cf(10) by linarith
      have t4l: "length (sieve_m t4) = length (sieve_m t3)" using t4(3) f3(6) by simp
      show ?thesis unfolding 2(3) f3(7) [symmetric]
        using f3(1-5) lo3 ne3 t4(1,2) t4l jl b5 by (rule seg)
    qed
  qed
  then show "\<exists>s'. finish E s0 = Some s' \<and> (\<forall>n \<in> candidates (emitted s'). unat start \<le> n)"
    using fin by blast
qed

lemma valid_11_31: "valid_input 11 31"
  by (simp add: valid_input_def)

lemma ref_env_new_11_31:
  assumes "ctor_sieveSize sz = n"
  shows "SieveOfEratosthenes_new ref_env 11 31 sz 13 h =
           (Inr ((SieveOfEratosthenes_members \<lparr>PreSieve_limit = 13\<rparr> 11 31 sz)
                   \<lparr>sieve_m := map (uninitialized ref_env) [0..<unat n]\<rparr>),
            SieveArray (unat n) # h)"
  unfolding assms [symmetric]
  by (rule SieveOfEratosthenes_new_no_tier) (simp_all add: ref_env_def sqrtStop_31)

lemma segmentLow_11: "segmentLow_m (SieveOfEratosthenes_members ps 11 stop sz) = 0"
proof -
  have "getByteRemainder 11 = 11"
    by (simp add: getByteRemainder_def NUMBERS_PER_BYTE_def word_le_nat_alt)
  then show ?thesis by (simp add: SieveOfEratosthenes_members_def Let_def)
qed

text \<open>
  An instance of claim C4: the range from 11 to 31 with the reference collaborators. The
  first segment begins at 0, so that bit 0 of its first byte stands for 7, which is
  below start: the pre-sieve step leaves that bit clear, and 7 is no candidate of the
  segments handed to the consumer.
\<close>

theorem lower_bound_enforced_witness:
  "\<exists>s0 h' s1 s'. SieveOfEratosthenes_new ref_env 11 31 1 13 [] = (Inr s0, h') \<and>
      preSieve ref_env s0 = Some s1 \<and>
      bitNumber (segmentLow_m s0) 0 0 = 7 \<and> \<not> bit (sieve_m s1 ! 0) 0 \<and>
      finish ref_env s0 = Some s' \<and> 7 \<notin> candidates (emitted s') \<and>
      candidates (emitted s') \<subseteq> {11..}"
proof -
  let ?s0 = "(SieveOfEratosthenes_members \<lparr>PreSieve_limit = 13\<rparr> 11 31 1)
               \<lparr>sieve_m := map (uninitialized ref_env) [0..<unat (1024 :: uint_t)]\<rparr>"
  obtain s0 h' where n: "SieveOfEratosthenes_new ref_env 11 31 1 13 [] = (Inr s0, h')"
    and s0: "s0 = ?s0"
    using ref_env_new_11_31 [OF ctor_sieveSize_1] by blast
  have lo: "segmentLow_m s0 = 0" unfolding s0 using segmentLow_11 by simp
  have b7: "bitNumber (segmentLow_m s0) 0 0 = 7"
    unfolding lo by (simp add: bitNumber_def bitValues_def)
  obtain s1 s' where p: "preSieve ref_env s0 = Some s1"
    and c: "\<forall>k. bitNumber (segmentLow_m s0) 0 k < unat (11 :: uint64_t) \<longrightarrow>
                \<not> bit (sieve_m s1 ! 0) k"
    and f: "finish ref_env s0 = Some s'"
    and a: "\<forall>n \<in> candidates (emitted s'). unat (11 :: uint64_t) \<le> n"
    using lower_bound_enforced [OF valid_11_31 n ref_env_keeps_length ref_env_clears_only]
    by blast
  have "\<not> bit (sieve_m s1 ! 0) 0" using c b7 by simp
  moreover have "7 \<notin> candidates (emitted s')" using a by auto
  moreover have "candidates (emitted s') \<subseteq> {11..}" using a by auto
  ultimately show ?thesis using n p f b7 by blast
qed

section \<open>The candidates are the primes of the range\<close>

lemma is_prime_ge2: "is_prime n \<Longrightarrow> 2 \<le> n"
  by (simp add: is_prime_def)

lemma is_prime_dvd:
  assumes "is_prime n" "d dvd n"
  shows "d = 1 \<or> d = n"
proof (rule ccontr)
  assume a: "\<not> (d = 1 \<or> d = n)"
  have n: "2 \<le> n" using assms(1) by (rule is_prime_ge2)
  have "d \<le> n" using assms(2) n by (intro dvd_imp_le) simp_all
  moreover have "d \<noteq> 0" using assms(2) n by (intro notI) simp
  ultimately have "d \<in> {2..<n}" using a by simp
  then show False using assms by (simp add: is_prime_def)
qed

lemma prime_factor_square:
  assumes "2 \<le> n" "\<not> is_prime n"
  shows "\<exists>p. is_prime p \<and> p dvd n \<and> p * p \<le> n"
proof -
  define p where "p = (LEAST d. 2 \<le> d \<and> d dvd n)"
  have ex: "2 \<le> n \<and> n dvd n" using assms(1) by simp
  have p: "2 \<le> p \<and> p dvd n" unfolding p_def by (rule LeastI [of _ n]) (rule ex)
  have least: "p \<le> d" if "2 \<le> d" "d dvd n" for d
    unfolding p_def using that by (intro Least_le) simp
  have pp: "is_prime p"
    unfolding is_prime_def
  proof (intro conjI ballI notI)
    show "2 \<le> p" using p by simp
    fix d assume d: "d \<in> {2..<p}" "d dvd p"
    then have "d dvd n" using p by (meson dvd_trans)
    then have "p \<le> d" using d(1) by (intro least) simp_all
    then show False using d(1) by simp
  qed
  obtain d where d: "d \<in> {2..<n}" "d dvd n"
    using assms by (auto simp: is_prime_def)
  have "p \<le> d" using d by (intro least) simp_all
  then have pn: "p < n" using d(1) by simp
  obtain q where q: "n = p * q" using p by (auto simp: dvd_def)
  have "q \<noteq> 1" using pn q by auto
  moreover have "q \<noteq> 0" using q assms(1) by (intro notI) simp
  ultimately have "2 \<le> q" by simp
  moreover have "q dvd n" using q by simp
  ultimately have "p \<le> q" by (rule least)
  then have "p * p \<le> p * q" by simp
  then show ?thesis using pp p q by auto
qed

lemma wheel_residues:
  assumes "\<not> 2 dvd n" "\<not> 3 dvd n" "\<not> 5 dvd (n::nat)"
  shows "n mod 30 \<in> {1, 7, 11, 13, 17, 19, 23, 29}"
proof -
  define r where "r = n mod 30"
  have n: "n = 30 * (n div 30) + r" by (simp add: r_def)
  have r2: "\<not> 2 dvd r"
  proof
    assume "2 dvd r"
    moreover have "(2::nat) dvd 30 * (n div 30)" by simp
    ultimately have "2 dvd 30 * (n div 30) + r" by (rule dvd_add [rotated])
    then show False using assms(1) n by simp
  qed
  have r3: "\<not> 3 dvd r"
  proof
    assume "3 dvd r"
    moreover have "(3::nat) dvd 30 * (n div 30)" by simp
    ultimately have "3 dvd 30 * (n div 30) + r" by (rule dvd_add [rotated])
    then show False using assms(2) n by simp
  qed
  have r5: "\<not> 5 dvd r"
  proof
    assume "5 dvd r"
    moreover have "(5::nat) dvd 30 * (n div 30)" by simp
    ultimately have "5 dvd 30 * (n div 30) + r" by (rule dvd_add [rotated])
    then show False using assms(3) n by simp
  qed
  have tab: "\<forall>r \<in> {..<30::nat}. 2 dvd r \<or> 3 dvd r \<or> 5 dvd r \<or>
      r \<in> {1, 7, 11, 13, 17, 19, 23, 29}"
    by code_simp
  have "r \<in> {..<30}" by (simp add: r_def)
  then have "2 dvd r \<or> 3 dvd r \<or> 5 dvd r \<or> r \<in> {1, 7, 11, 13, 17, 19, 23, 29}"
    using tab by blast
  then show ?thesis unfolding r_def [symmetric] using r2 r3 r5 by blast
qed

lemma bitValues_nth:
  "unat (bitValues ! 0) = 7" "unat (bitValues ! 1) = 11" "unat (bitValues ! 2) = 13"
  "unat (bitValues ! 3) = 17" "unat (bitValues ! 4) = 19" "unat (bitValues ! 5) = 23"
  "unat (bitValues ! 6) = 29" "unat (bitValues ! 7) = 31"
  by (simp_all add: bitValues_def)

lemma bitValues_coprime:
  assumes "k < 8"
  shows "\<not> 2 dvd unat (bitValues ! k)" "\<not> 3 dvd unat (bitValues ! k)"
    "\<not> 5 dvd unat (bitValues ! k)"
proof -
  have "k \<in> {0, 1, 2, 3, 4, 5, 6, 7}" using assms by auto
  then show "\<not> 2 dvd unat (bitValues ! k)" "\<not> 3 dvd unat (bitValues ! k)"
    "\<not> 5 dvd unat (bitValues ! k)"
    by (auto simp: bitValues_def)
qed

lemma bitNumber_coprime:
  assumes "30 dvd unat low" "k < 8"
  shows "\<not> 2 dvd bitNumber low j k" "\<not> 3 dvd bitNumber low j k" "\<not> 5 dvd bitNumber low j k"
proof -
  obtain a where a: "unat low = 30 * a" using assms(1) by (auto simp: dvd_def)
  have e: "bitNumber low j k = 30 * (a + j) + unat (bitValues ! k)"
    by (simp add: bitNumber_def a distrib_left)
  have "(2::nat) dvd 30 * (a + j)" "(3::nat) dvd 30 * (a + j)" "(5::nat) dvd 30 * (a + j)"
    by simp_all
  then show "\<not> 2 dvd bitNumber low j k" "\<not> 3 dvd bitNumber low j k"
    "\<not> 5 dvd bitNumber low j k"
    unfolding e using bitValues_coprime [OF assms(2)]
    by (simp_all only: dvd_add_right_iff not_False_eq_True)
qed

lemma small_prime_factor:
  assumes "is_prime p" "p < 7"
  shows "p = 2 \<or> p = 3 \<or> p = 5"
proof -
  have "2 \<le> p" using assms(1) by (rule is_prime_ge2)
  then have "p \<in> {2, 3, 4, 5, 6}" using assms(2) by auto
  moreover have "p \<noteq> 4"
  proof
    assume "p = 4"
    then have "(2::nat) = 1 \<or> (2::nat) = 4" using is_prime_dvd [OF assms(1), of 2] by simp
    then show False by simp
  qed
  moreover have "p \<noteq> 6"
  proof
    assume "p = 6"
    then have "(2::nat) = 1 \<or> (2::nat) = 6" using is_prime_dvd [OF assms(1), of 2] by simp
    then show False by simp
  qed
  ultimately show ?thesis by auto
qed

lemma coprime30_factor_ge7:
  assumes "\<not> 2 dvd n" "\<not> 3 dvd n" "\<not> 5 dvd (n::nat)" "is_prime p" "p dvd n"
  shows "7 \<le> p"
proof (rule ccontr)
  assume "\<not> 7 \<le> p"
  then have "p = 2 \<or> p = 3 \<or> p = 5" using assms(4) by (intro small_prime_factor) simp_all
  then show False using assms(1,2,3,5) by auto
qed

lemma prime_coprime30:
  assumes "is_prime p" "7 \<le> p"
  shows "\<not> 2 dvd p" "\<not> 3 dvd p" "\<not> 5 dvd p"
  using is_prime_dvd [OF assms(1), of 2] is_prime_dvd [OF assms(1), of 3]
    is_prime_dvd [OF assms(1), of 5] assms(2) by auto

lemma representable:
  assumes L: "30 dvd L" and c: "\<not> 2 dvd p" "\<not> 3 dvd p" "\<not> 5 dvd (p::nat)"
      and lo: "L + 2 \<le> p" and hi: "p \<le> L + 30 * (m - 1) + 31" and m: "1 \<le> m"
  shows "\<exists>j<m. \<exists>k<8. p = L + 30 * j + unat (bitValues ! k)"
proof -
  obtain a where a: "L = 30 * a" using L by (auto simp: dvd_def)
  define q where "q = p div 30"
  define r where "r = p mod 30"
  have p: "p = 30 * q + r" by (simp add: q_def r_def)
  have r: "r \<in> {1, 7, 11, 13, 17, 19, 23, 29}" unfolding r_def using c by (rule wheel_residues)
  obtain m' where m': "m = Suc m'" using m by (cases m) simp_all
  have hi': "30 * q + r \<le> 30 * a + 30 * m' + 31" using hi unfolding p a m' by simp
  have lo': "30 * a + 2 \<le> 30 * q + r" using lo unfolding p a by simp
  show ?thesis
  proof (cases "r = 1")
    case True
    have "a < q" using lo' True by simp
    then obtain j where j: "q = a + 1 + j" by (metis Suc_eq_plus1 less_iff_Suc_add add.assoc add.commute)
    have "j \<le> m'" using hi' unfolding j True by simp
    then have "j < m" using m' by simp
    moreover have "p = L + 30 * j + unat (bitValues ! 7)"
      unfolding p a j True bitValues_nth by simp
    moreover have "(7::nat) < 8" by simp
    ultimately show ?thesis by blast
  next
    case False
    then have r': "r \<in> {7, 11, 13, 17, 19, 23, 29}" using r by simp
    then have r7: "7 \<le> r" "r \<le> 29" by auto
    have "a \<le> q" using lo' r7 by simp
    then obtain j where j: "q = a + j" by (metis le_iff_add)
    have "j \<le> m'" using hi' r7 unfolding j by simp
    then have jm: "j < m" using m' by simp
    obtain k where k: "k < 8" "unat (bitValues ! k) = r"
    proof -
      from r' consider "r = 7" | "r = 11" | "r = 13" | "r = 17" | "r = 19" | "r = 23" | "r = 29"
        by auto
      then show ?thesis
      proof cases
        case 1 then show ?thesis using that [of 0] bitValues_nth by simp
      next
        case 2 then show ?thesis using that [of 1] bitValues_nth by simp
      next
        case 3 then show ?thesis using that [of 2] bitValues_nth by simp
      next
        case 4 then show ?thesis using that [of 3] bitValues_nth by simp
      next
        case 5 then show ?thesis using that [of 4] bitValues_nth by simp
      next
        case 6 then show ?thesis using that [of 5] bitValues_nth by simp
      next
        case 7 then show ?thesis using that [of 6] bitValues_nth by simp
      qed
    qed
    have "p = L + 30 * j + unat (bitValues ! k)" unfolding p a j k(2) by simp
    then show ?thesis using jm k(1) by blast
  qed
qed

lemma ctor_cascade_built:
  assumes n: "SieveOfEratosthenes_new E start stop sieveSize preSieveLimit h = (Inr s0, h')"
  shows "cascade_built s0"
proof -
  from n obtain ps s1 h1 where
    p: "new_PreSieve E preSieveLimit = Inr ps"
    and i: "initEratAlgorithms E (SieveOfEratosthenes_members ps start stop sieveSize) h = (Inr s1, h1)"
    and f: "start_m s0 = start" "stop_m s0 = stop" "preSieve_m s0 = ps"
    "sqrtStop_m s0 = word_of_nat (isqrt (unat stop))"
    "sieveSize_m s0 = ctor_sieveSize sieveSize"
    "segmentLow_m s0 = start - getByteRemainder start"
    "segmentHigh_m s0 =
       segmentLow_m s0 + ucast (ctor_sieveSize sieveSize * NUMBERS_PER_BYTE) + 1"
    "length (sieve_m s0) = unat (ctor_sieveSize sieveSize)"
    "emitted s0 = []"
    and t: "eratSmall_m s0 = eratSmall_m s1" "eratMedium_m s0 = eratMedium_m s1"
    "eratBig_m s0 = eratBig_m s1"
    by (rule ctor_state)
  let ?m = "SieveOfEratosthenes_members ps start stop sieveSize"
  have m: "sqrtStop_m ?m = sqrtStop_m s0" "preSieve_m ?m = preSieve_m s0"
    by (simp_all add: SieveOfEratosthenes_members_def Let_def f)
  note c = initEratAlgorithms_cascade [OF members_no_tier i, unfolded m, folded t]
  show ?thesis
  proof (cases "eratSmall_m s0")
    case None
    then have "\<not> sqrtStop_m s0 > PreSieve_limit (preSieve_m s0)" using c(1) by simp
    moreover have "eratMedium_m s0 = None" using c(2) None by auto
    moreover from this have "eratBig_m s0 = None" using c(3) by auto
    ultimately show ?thesis using None by (simp add: cascade_built_def)
  next
    case es: (Some es)
    show ?thesis
    proof (cases "eratMedium_m s0")
      case None
      then have "\<not> sqrtStop_m s0 > Erat_limit es" using c(2) es by auto
      moreover have "eratBig_m s0 = None" using c(3) None by auto
      ultimately show ?thesis using es None by (simp add: cascade_built_def)
    next
      case em: (Some em)
      show ?thesis
      proof (cases "eratBig_m s0")
        case None
        then have "\<not> sqrtStop_m s0 > Erat_limit em" using c(3) em by auto
        then show ?thesis using es em None by (simp add: cascade_built_def)
      next
        case (Some eb)
        then show ?thesis using es em by (simp add: cascade_built_def)
      qed
    qed
  qed
qed

lemma cascade_built_cong:
  assumes "preSieve_m t = preSieve_m s" "sqrtStop_m t = sqrtStop_m s"
    "eratSmall_m t = eratSmall_m s"
    "eratMedium_m t = eratMedium_m s" "eratBig_m t = eratBig_m s"
  shows "cascade_built t = cascade_built s"
  by (simp add: cascade_built_def assms split: option.splits)

lemma tier_contractD:
  assumes "tier_contract lo hi f" "j < unat sz" "j < length buf" "k < 8"
  shows "length (f low buf sz) = length buf"
    and "bit (f low buf sz ! j) k \<Longrightarrow> bit (buf ! j) k"
    and "bit (buf ! j) k \<Longrightarrow> is_prime (bitNumber low j k) \<Longrightarrow> bit (f low buf sz ! j) k"
    and "is_prime p \<Longrightarrow> lo < p \<Longrightarrow> p \<le> hi \<Longrightarrow> p dvd bitNumber low j k \<Longrightarrow>
           p * p \<le> bitNumber low j k \<Longrightarrow> \<not> bit (f low buf sz ! j) k"
proof -
  have a: "length (f low buf sz) = length buf \<and>
        (\<forall>j k. j < unat sz \<longrightarrow> j < length buf \<longrightarrow> k < 8 \<longrightarrow>
           (bit (f low buf sz ! j) k \<longrightarrow> bit (buf ! j) k) \<and>
           (bit (buf ! j) k \<longrightarrow> is_prime (bitNumber low j k) \<longrightarrow>
              bit (f low buf sz ! j) k) \<and>
           ((\<exists>p. is_prime p \<and> lo < p \<and> p \<le> hi \<and> p dvd bitNumber low j k \<and>
                  p * p \<le> bitNumber low j k) \<longrightarrow>
              \<not> bit (f low buf sz ! j) k))"
    using assms(1) unfolding tier_contract_def by blast
  then show "length (f low buf sz) = length buf" by simp
  have b: "(bit (f low buf sz ! j) k \<longrightarrow> bit (buf ! j) k) \<and>
           (bit (buf ! j) k \<longrightarrow> is_prime (bitNumber low j k) \<longrightarrow>
              bit (f low buf sz ! j) k) \<and>
           ((\<exists>p. is_prime p \<and> lo < p \<and> p \<le> hi \<and> p dvd bitNumber low j k \<and>
                  p * p \<le> bitNumber low j k) \<longrightarrow>
              \<not> bit (f low buf sz ! j) k)"
    using a assms(2,3,4) by blast
  show "bit (f low buf sz ! j) k \<Longrightarrow> bit (buf ! j) k" using b by blast
  show "bit (buf ! j) k \<Longrightarrow> is_prime (bitNumber low j k) \<Longrightarrow> bit (f low buf sz ! j) k"
    using b by blast
  show "is_prime p \<Longrightarrow> lo < p \<Longrightarrow> p \<le> hi \<Longrightarrow> p dvd bitNumber low j k \<Longrightarrow>
           p * p \<le> bitNumber low j k \<Longrightarrow> \<not> bit (f low buf sz ! j) k"
    using b by blast
qed

lemma tier_contract_length:
  assumes "tier_contract lo hi f"
  shows "length (f low buf sz) = length buf"
  using assms unfolding tier_contract_def by blast

lemma crossOffMultiples_contract:
  assumes cc: "cascade_contract E u" and cb: "cascade_built u"
      and j: "j < unat (sieveSize_m u)" "j < length (sieve_m u)" and k: "k < 8"
  defines "n \<equiv> bitNumber (segmentLow_m u) j k"
  defines "c \<equiv> sieve_m (crossOffMultiples E u)"
  shows "length c = length (sieve_m u) \<and>
     (bit (c ! j) k \<longrightarrow> bit (sieve_m u ! j) k) \<and>
     (bit (sieve_m u ! j) k \<longrightarrow> is_prime n \<longrightarrow> bit (c ! j) k) \<and>
     (\<forall>p. is_prime p \<longrightarrow> unat (PreSieve_limit (preSieve_m u)) < p \<longrightarrow>
          p \<le> unat (sqrtStop_m u) \<longrightarrow> p dvd n \<longrightarrow> p * p \<le> n \<longrightarrow> \<not> bit (c ! j) k)"
proof (cases "eratSmall_m u")
  case None
  have c: "c = sieve_m u" unfolding c_def using None by (simp add: crossOffMultiples_def)
  have "\<not> sqrtStop_m u > PreSieve_limit (preSieve_m u)"
    using cb None by (simp add: cascade_built_def)
  then have "unat (sqrtStop_m u) \<le> unat (PreSieve_limit (preSieve_m u))"
    by (simp add: word_less_nat_alt)
  then show ?thesis unfolding c by auto
next
  case es: (Some es)
  let ?L = "segmentLow_m u" and ?sz = "sieveSize_m u"
  let ?b1 = "crossOff_small E es ?L (sieve_m u) ?sz"
  have tc1: "tier_contract (unat (PreSieve_limit (preSieve_m u))) (unat (Erat_limit es))
      (crossOff_small E es)"
    using cc es by (simp add: cascade_contract_def)
  note d1 = tier_contractD [OF tc1 j(1) j(2) k, where low = "?L", folded n_def]
  show ?thesis
  proof (cases "eratMedium_m u")
    case None
    have c: "c = ?b1" unfolding c_def using es None by (simp add: crossOffMultiples_def Let_def)
    have "\<not> sqrtStop_m u > Erat_limit es" using cb es None by (simp add: cascade_built_def)
    then have le: "unat (sqrtStop_m u) \<le> unat (Erat_limit es)" by (simp add: word_less_nat_alt)
    show ?thesis unfolding c
    proof (intro conjI allI impI)
      show "length ?b1 = length (sieve_m u)" by (rule d1(1))
      show "bit (?b1 ! j) k \<Longrightarrow> bit (sieve_m u ! j) k" by (rule d1(2))
      show "bit (sieve_m u ! j) k \<Longrightarrow> is_prime n \<Longrightarrow> bit (?b1 ! j) k" by (rule d1(3))
      fix p assume p: "is_prime p" "unat (PreSieve_limit (preSieve_m u)) < p"
        "p \<le> unat (sqrtStop_m u)" "p dvd n" "p * p \<le> n"
      have "p \<le> unat (Erat_limit es)" using p(3) le by simp
      then show "\<not> bit (?b1 ! j) k" using p by (intro d1(4)) simp_all
    qed
  next
    case em: (Some em)
    let ?b2 = "crossOff_medium E em ?L ?b1 ?sz"
    have tc2: "tier_contract (unat (Erat_limit es)) (unat (Erat_limit em)) (crossOff_medium E em)"
      using cc es em by (simp add: cascade_contract_def)
    have j1: "j < length ?b1" using j(2) d1(1) by simp
    note d2 = tier_contractD [OF tc2 j(1) j1 k, where low = "?L", folded n_def]
    show ?thesis
    proof (cases "eratBig_m u")
      case None
      have c: "c = ?b2" unfolding c_def using es em None
        by (simp add: crossOffMultiples_def Let_def)
      have "\<not> sqrtStop_m u > Erat_limit em" using cb es em None by (simp add: cascade_built_def)
      then have le: "unat (sqrtStop_m u) \<le> unat (Erat_limit em)" by (simp add: word_less_nat_alt)
      show ?thesis unfolding c
      proof (intro conjI allI impI)
        show "length ?b2 = length (sieve_m u)" using d2(1) d1(1) by simp
        show "bit (?b2 ! j) k \<Longrightarrow> bit (sieve_m u ! j) k" using d2(2) d1(2) by blast
        show "bit (sieve_m u ! j) k \<Longrightarrow> is_prime n \<Longrightarrow> bit (?b2 ! j) k"
          using d2(3) d1(3) by blast
        fix p assume p: "is_prime p" "unat (PreSieve_limit (preSieve_m u)) < p"
          "p \<le> unat (sqrtStop_m u)" "p dvd n" "p * p \<le> n"
        show "\<not> bit (?b2 ! j) k"
        proof (cases "p \<le> unat (Erat_limit es)")
          case True
          then have "\<not> bit (?b1 ! j) k" using p by (intro d1(4)) simp_all
          then show ?thesis using d2(2) by blast
        next
          case False
          then have "unat (Erat_limit es) < p" "p \<le> unat (Erat_limit em)" using p(3) le by simp_all
          then show ?thesis using p by (intro d2(4)) simp_all
        qed
      qed
    next
      case eb: (Some eb)
      let ?b3 = "crossOff_big E eb ?L ?b2"
      have tc3: "tier_contract (unat (Erat_limit em)) (unat (sqrtStop_m u))
          (\<lambda>low buf sz. crossOff_big E eb low buf)"
        using cc em eb by (simp add: cascade_contract_def)
      have j2: "j < length ?b2" using j1 d2(1) by simp
      note d3 = tier_contractD [OF tc3 j(1) j2 k, where low = "?L", folded n_def]
      have c: "c = ?b3" unfolding c_def using es em eb
        by (simp add: crossOffMultiples_def Let_def)
      show ?thesis unfolding c
      proof (intro conjI allI impI)
        show "length ?b3 = length (sieve_m u)" using d3(1) d2(1) d1(1) by simp
        show "bit (?b3 ! j) k \<Longrightarrow> bit (sieve_m u ! j) k" using d3(2) d2(2) d1(2) by blast
        show "bit (sieve_m u ! j) k \<Longrightarrow> is_prime n \<Longrightarrow> bit (?b3 ! j) k"
          using d3(3) d2(3) d1(3) by blast
        fix p assume p: "is_prime p" "unat (PreSieve_limit (preSieve_m u)) < p"
          "p \<le> unat (sqrtStop_m u)" "p dvd n" "p * p \<le> n"
        show "\<not> bit (?b3 ! j) k"
        proof (cases "p \<le> unat (Erat_limit es)")
          case True
          then have "\<not> bit (?b1 ! j) k" using p by (intro d1(4)) simp_all
          then show ?thesis using d2(2) d3(2) by blast
        next
          case F1: False
          show ?thesis
          proof (cases "p \<le> unat (Erat_limit em)")
            case True
            then have "\<not> bit (?b2 ! j) k" using p F1 by (intro d2(4)) simp_all
            then show ?thesis using d3(2) by blast
          next
            case False
            then show ?thesis using p by (intro d3(4)) simp_all
          qed
        qed
      qed
    qed
  qed
qed

lemma contracts_keep_length:
  assumes dc: "doIt_contract E (preSieve_m s)" and cc: "cascade_contract E s"
      and cb: "cascade_built s"
  shows "keeps_length E s"
  unfolding keeps_length_def
proof (intro conjI allI impI)
  fix buf sz low
  show "length (doIt E (preSieve_m s) buf sz low) = length buf"
    using dc unfolding doIt_contract_def by blast
next
  fix t low buf sz assume t: "eratSmall_m s = Some t"
  have "tier_contract (unat (PreSieve_limit (preSieve_m s))) (unat (Erat_limit t))
      (crossOff_small E t)"
    using cc t by (simp add: cascade_contract_def)
  then show "length (crossOff_small E t low buf sz) = length buf" by (rule tier_contract_length)
next
  fix t low buf sz assume t: "eratMedium_m s = Some t"
  obtain es where es: "eratSmall_m s = Some es"
    using cb t by (cases "eratSmall_m s") (simp_all add: cascade_built_def)
  have "tier_contract (unat (Erat_limit es)) (unat (Erat_limit t)) (crossOff_medium E t)"
    using cc t es by (simp add: cascade_contract_def)
  then show "length (crossOff_medium E t low buf sz) = length buf" by (rule tier_contract_length)
next
  fix t low buf assume t: "eratBig_m s = Some t"
  obtain es where es: "eratSmall_m s = Some es"
    using cb t by (cases "eratSmall_m s") (simp_all add: cascade_built_def)
  obtain em where em: "eratMedium_m s = Some em"
    using cb t es by (cases "eratMedium_m s") (simp_all add: cascade_built_def)
  have "tier_contract (unat (Erat_limit em)) (unat (sqrtStop_m s))
      (\<lambda>low buf sz. crossOff_big E t low buf)"
    using cc t em by (simp add: cascade_contract_def)
  then show "length (crossOff_big E t low buf) = length buf"
    using tier_contract_length [of _ _ "\<lambda>low buf sz. crossOff_big E t low buf" low buf 0] by simp
qed

lemma isqrt_ge:
  assumes "p * p \<le> m"
  shows "p \<le> isqrt m"
proof (rule ccontr)
  assume "\<not> p \<le> isqrt m"
  then have "isqrt m + 1 \<le> p" by simp
  then have "(isqrt m + 1) * (isqrt m + 1) \<le> p * p" using mult_le_mono by blast
  then show False using isqrt_bounds [of m] assms by linarith
qed

lemma sieved_bits:
  assumes c: "constructed s0"
      and lim: "13 \<le> unat (PreSieve_limit (preSieve_m s0))"
               "unat (PreSieve_limit (preSieve_m s0)) \<le> 23"
      and sq: "unat (sqrtStop_m s0) = isqrt (unat (stop_m s0))"
      and dc: "doIt_contract E (preSieve_m s0)"
      and cc: "cascade_contract E s0" and cb: "cascade_built s0"
      and u: "start_m u = start_m s0" "preSieve_m u = preSieve_m s0"
             "sqrtStop_m u = sqrtStop_m s0" "eratSmall_m u = eratSmall_m s0"
             "eratMedium_m u = eratMedium_m s0" "eratBig_m u = eratBig_m s0"
      and lo: "segmentLow_m u = segmentLow_m s0 \<or> unat (start_m s0) < unat (segmentLow_m u)"
      and dv: "30 dvd unat (segmentLow_m u)"
      and p: "preSieve E u = Some u2"
      and j: "j < unat (sieveSize_m u)" "j < length (sieve_m u)" and k: "k < 8"
      and nle: "bitNumber (segmentLow_m u) j k \<le> unat (stop_m s0)"
  shows "bit (sieve_m (crossOffMultiples E u2) ! j) k \<longleftrightarrow>
           is_prime (bitNumber (segmentLow_m u) j k) \<and>
           unat (start_m s0) \<le> bitNumber (segmentLow_m u) j k"
proof -
  note cf = constructed_facts [OF c]
  define n where "n = bitNumber (segmentLow_m u) j k"
  define lm where "lm = unat (PreSieve_limit (preSieve_m s0))"
  define L where "L = unat (segmentLow_m u)"
  define st where "st = unat (start_m s0)"
  define r where "r = unat (getByteRemainder (start_m s0))"
  define bv where "bv = unat (bitValues ! k)"
  have nL: "n = L + 30 * j + bv" by (simp add: n_def bitNumber_def L_def bv_def)
  have bvb: "7 \<le> bv" "bv \<le> 31" unfolding bv_def using bitValues_nth_bounds [OF k] by simp_all
  have r: "2 \<le> r" "r \<le> 31" unfolding r_def by (rule getByteRemainder_range)+
  have lo0: "unat (segmentLow_m s0) + r = st" unfolding r_def st_def by (rule cf(4))
  have cop: "\<not> 2 dvd n" "\<not> 3 dvd n" "\<not> 5 dvd n"
    unfolding n_def by (rule bitNumber_coprime [OF dv k])+
  let ?b = "doIt E (preSieve_m u) (sieve_m u) (sieveSize_m u) (segmentLow_m u)"
  have lb: "length ?b = length (sieve_m u)" using dc unfolding doIt_contract_def u(2) by blast
  have ne: "sieve_m u \<noteq> []" using j(2) by auto
  have bne: "?b \<noteq> []" using lb ne by auto
  have pat: "bit (?b ! j) k \<longleftrightarrow> \<not> (\<exists>p. is_prime p \<and> 7 \<le> p \<and> p \<le> lm \<and> p dvd n)"
    if "lm < n"
  proof -
    have "\<forall>j k. j < unat (sieveSize_m u) \<longrightarrow> j < length (sieve_m u) \<longrightarrow> k < 8 \<longrightarrow>
           unat (PreSieve_limit (preSieve_m s0)) < bitNumber (segmentLow_m u) j k \<longrightarrow>
             (bit (?b ! j) k \<longleftrightarrow>
                \<not> (\<exists>p. is_prime p \<and> 7 \<le> p \<and> p \<le> unat (PreSieve_limit (preSieve_m s0)) \<and>
                         p dvd bitNumber (segmentLow_m u) j k))"
      using dc unfolding doIt_contract_def u(2) by blast
    then show ?thesis using j k that unfolding n_def lm_def by blast
  qed
  \<comment> \<open>the buffer after the pre-sieve step\<close>
  have first_iff: "segmentLow_m u \<le> start_m u \<longleftrightarrow> segmentLow_m u = segmentLow_m s0"
  proof -
    have "unat (segmentLow_m s0) \<le> st" using lo0 by simp
    then show ?thesis using lo unfolding u(1) word_le_nat_alt st_def by auto
  qed
  have B: "bit (sieve_m u2 ! j) k \<longleftrightarrow>
      (if segmentLow_m u = segmentLow_m s0 \<and> j = 0
       then (st \<le> lm \<or> bit (?b ! 0) k) \<and> r \<le> bv
       else bit (?b ! j) k)"
    and l2: "length (sieve_m u2) = length (sieve_m u)"
  proof -
    show "bit (sieve_m u2 ! j) k \<longleftrightarrow>
      (if segmentLow_m u = segmentLow_m s0 \<and> j = 0
       then (st \<le> lm \<or> bit (?b ! 0) k) \<and> r \<le> bv
       else bit (?b ! j) k)"
    proof (cases "segmentLow_m u = segmentLow_m s0")
      case True
      then have le: "segmentLow_m u \<le> start_m u" using first_iff by simp
      obtain v where v: "preSieve E u = Some (u\<lparr>sieve_m := ?b[0 := v]\<rparr>)"
        "\<And>k. bit v k \<longleftrightarrow> k < 8 \<and>
            (start_m u \<le> ucast (PreSieve_limit (preSieve_m u)) \<or> bit (?b ! 0) k) \<and>
            unat (getByteRemainder (start_m u)) \<le> unat (bitValues ! k)"
        using preSieve_first [OF le refl bne] by blast
      have "Some u2 = Some (u\<lparr>sieve_m := ?b[0 := v]\<rparr>)" using p v(1) by simp
      then have "u2 = u\<lparr>sieve_m := ?b[0 := v]\<rparr>" by (simp only: option.inject)
      then have u2: "sieve_m u2 = ?b[0 := v]" by simp
      have wl: "start_m u \<le> ucast (PreSieve_limit (preSieve_m u)) \<longleftrightarrow> st \<le> lm"
        unfolding u(1,2) by (simp add: word_le_nat_alt unat_ucast_up st_def lm_def)
      show ?thesis
      proof (cases "j = 0")
        case j0: True
        have "bit (sieve_m u2 ! j) k \<longleftrightarrow> bit v k" unfolding u2 j0 using bne by simp
        then show ?thesis using v(2) [of k] k True j0 wl
          by (simp add: u(1) r_def bv_def)
      next
        case False
        then show ?thesis unfolding u2 by simp
      qed
    next
      case False
      then have "\<not> segmentLow_m u \<le> start_m u" using first_iff by simp
      then have "preSieve E u = Some (u\<lparr>sieve_m := ?b\<rparr>)" by (rule preSieve_later)
      then have "Some u2 = Some (u\<lparr>sieve_m := ?b\<rparr>)" using p by simp
      then have "u2 = u\<lparr>sieve_m := ?b\<rparr>" by (simp only: option.inject)
      then have "sieve_m u2 = ?b" by simp
      then show ?thesis using False by simp
    qed
    have "u2 = u\<lparr>sieve_m := sieve_m u2\<rparr>" using p by (rule preSieve_sieve)
    have ku: "keeps_length E u"
      using contracts_keep_length [OF dc cc cb] keeps_length_cong [OF u(2,4,5,6)] by simp
    obtain s1 where "preSieve E u = Some s1" "length (sieve_m s1) = length (sieve_m u)"
      using preSieve_Some [OF ku ne] by blast
    then show "length (sieve_m u2) = length (sieve_m u)" using p by simp
  qed
  \<comment> \<open>the position of the number relative to start and to the limit\<close>
  have notfirst: "st \<le> n \<and> 23 < n" if "\<not> (segmentLow_m u = segmentLow_m s0 \<and> j = 0)"
  proof (cases "segmentLow_m u = segmentLow_m s0")
    case True
    then have "j \<noteq> 0" using that by simp
    then have "30 \<le> 30 * j" by simp
    moreover have "L = unat (segmentLow_m s0)" using True by (simp add: L_def)
    ultimately show ?thesis using lo0 r bvb unfolding nL by linarith
  next
    case False
    then have sL: "st < L" using lo by (simp add: st_def L_def)
    obtain a where a: "L = 30 * a" using dv by (auto simp: dvd_def L_def)
    have "a \<noteq> 0" using sL a by (intro notI) simp
    then have "30 \<le> L" unfolding a by simp
    then show ?thesis using sL bvb unfolding nL by linarith
  qed
  have first: "(r \<le> bv \<longleftrightarrow> st \<le> n) \<and> n = unat (segmentLow_m s0) + bv"
    if "segmentLow_m u = segmentLow_m s0 \<and> j = 0"
    using that lo0 unfolding nL L_def by auto
  \<comment> \<open>the cascade\<close>
  have g: "preSieve_m u2 = preSieve_m s0" "sqrtStop_m u2 = sqrtStop_m s0"
    "eratSmall_m u2 = eratSmall_m s0" "eratMedium_m u2 = eratMedium_m s0"
    "eratBig_m u2 = eratBig_m s0" "sieveSize_m u2 = sieveSize_m u"
    "segmentLow_m u2 = segmentLow_m u"
    by (subst preSieve_sieve [OF p], simp add: u)+
  have cc2: "cascade_contract E u2" using cc cascade_contract_cong [OF g(1-5)] by simp
  have cb2: "cascade_built u2" using cb cascade_built_cong [OF g(1-5)] by simp
  have j2: "j < unat (sieveSize_m u2)" "j < length (sieve_m u2)" using j l2 g(6) by simp_all
  note cas = crossOffMultiples_contract [OF cc2 cb2 j2 k, unfolded g, folded n_def lm_def]
  let ?c = "sieve_m (crossOffMultiples E u2)"
  have ca: "bit (?c ! j) k \<Longrightarrow> bit (sieve_m u2 ! j) k" using cas by blast
  have cp: "bit (sieve_m u2 ! j) k \<Longrightarrow> is_prime n \<Longrightarrow> bit (?c ! j) k" using cas by blast
  have cx: "is_prime q \<Longrightarrow> lm < q \<Longrightarrow> q \<le> unat (sqrtStop_m s0) \<Longrightarrow> q dvd n \<Longrightarrow>
      q * q \<le> n \<Longrightarrow> \<not> bit (?c ! j) k" for q
    using cas by blast
  have lmb: "13 \<le> lm" "lm \<le> 23" using lim by (simp_all add: lm_def)
  show ?thesis unfolding n_def [symmetric] st_def [symmetric]
  proof (cases "st \<le> n")
    case below: False
    then have f: "segmentLow_m u = segmentLow_m s0 \<and> j = 0" using notfirst by blast
    then have "\<not> r \<le> bv" using first below by blast
    then have "\<not> bit (sieve_m u2 ! j) k" using B f by simp
    then show "bit (?c ! j) k \<longleftrightarrow> is_prime n \<and> st \<le> n" using ca below by blast
  next
    case ge: True
    show "bit (?c ! j) k \<longleftrightarrow> is_prime n \<and> st \<le> n"
    proof (cases "is_prime n")
      case pr: True
      have nopat: "\<not> (\<exists>p. is_prime p \<and> 7 \<le> p \<and> p \<le> lm \<and> p dvd n)" if "lm < n"
      proof
        assume "\<exists>p. is_prime p \<and> 7 \<le> p \<and> p \<le> lm \<and> p dvd n"
        then obtain q where q: "is_prime q" "7 \<le> q" "q \<le> lm" "q dvd n" by blast
        then have "q = 1 \<or> q = n" using is_prime_dvd [OF pr] by blast
        then show False using q(2,3) that by auto
      qed
      have "bit (sieve_m u2 ! j) k"
      proof (cases "segmentLow_m u = segmentLow_m s0 \<and> j = 0")
        case f: True
        then have rb: "r \<le> bv" using first ge by blast
        have "st \<le> lm \<or> bit (?b ! 0) k"
        proof (cases "lm < n")
          case True
          then have "bit (?b ! j) k" using pat nopat by blast
          then show ?thesis using f by simp
        next
          case False
          then show ?thesis using ge by simp
        qed
        then show ?thesis using B f rb by simp
      next
        case nf: False
        then have "lm < n" using notfirst lmb by auto
        then have "bit (?b ! j) k" using pat nopat by blast
        moreover have "bit (sieve_m u2 ! j) k \<longleftrightarrow> bit (?b ! j) k"
          using B nf by (simp only: if_False)
        ultimately show ?thesis by simp
      qed
      then show ?thesis using cp pr ge by blast
    next
      case np: False
      have n7: "7 \<le> n" using bvb unfolding nL by simp
      then have "2 \<le> n" by simp
      then obtain q where q: "is_prime q" "q dvd n" "q * q \<le> n"
        using prime_factor_square np by blast
      have q7: "7 \<le> q" using cop q(1,2) by (rule coprime30_factor_ge7)
      then have "7 * 7 \<le> q * q" using mult_le_mono by blast
      then have n49: "49 \<le> n" using q(3) by simp
      have "q * q \<le> unat (stop_m s0)" using q(3) nle unfolding n_def by simp
      then have qs: "q \<le> unat (sqrtStop_m s0)" unfolding sq by (rule isqrt_ge)
      have "\<not> bit (?c ! j) k"
      proof (cases "q \<le> lm")
        case True
        have "lm < n" using n49 lmb by simp
        then have nb: "\<not> bit (?b ! j) k" using pat q q7 True by blast
        have "\<not> bit (sieve_m u2 ! j) k"
        proof (cases "segmentLow_m u = segmentLow_m s0 \<and> j = 0")
          case f: True
          have "\<not> st \<le> lm"
          proof
            assume "st \<le> lm"
            then have s29: "unat (start_m s0) \<le> 29" using lmb by (simp add: st_def)
            have "start_m s0 - getByteRemainder (start_m s0) = 0"
              using cf(1) s29 by (rule segmentLow_zero)
            moreover have "segmentLow_m s0 = start_m s0 - getByteRemainder (start_m s0)"
              using c by (simp add: constructed_def)
            ultimately have "unat (segmentLow_m s0) = 0" by simp
            then have "n = bv" using first f by simp
            then show False using n49 bvb by simp
          qed
          then show ?thesis using B f nb by simp
        next
          case False
          then have "bit (sieve_m u2 ! j) k \<longleftrightarrow> bit (?b ! j) k"
            using B by (simp only: if_False)
          then show ?thesis using nb by simp
        qed
        then show ?thesis using ca by blast
      next
        case False
        then have "lm < q" by simp
        then show ?thesis using q qs by (intro cx)
      qed
      then show ?thesis using np by blast
    qed
  qed
qed

lemma segment_primes:
  assumes dv: "30 dvd unat low" and m: "1 \<le> m" "m \<le> length buf" and s7: "7 \<le> st"
      and hi: "hi \<le> unat low + 30 * (m - 1) + 31"
      and bits: "\<And>j k. j < m \<Longrightarrow> k < 8 \<Longrightarrow>
          bit (buf ! j) k \<longleftrightarrow>
            is_prime (bitNumber low j k) \<and> st \<le> bitNumber low j k \<and> bitNumber low j k \<le> hi"
  shows "{n. \<exists>j < length (take m buf). \<exists>k < 8. bit (take m buf ! j) k \<and> n = bitNumber low j k} =
         {p. is_prime p \<and> st \<le> p \<and> unat low + 2 \<le> p \<and> p \<le> hi}"
proof (intro set_eqI iffI)
  fix n
  assume "n \<in> {n. \<exists>j < length (take m buf). \<exists>k < 8.
                 bit (take m buf ! j) k \<and> n = bitNumber low j k}"
  then obtain j k where jk: "j < m" "k < 8" "bit (buf ! j) k" "n = bitNumber low j k"
    using m by auto
  have "unat low + 2 \<le> n" unfolding jk(4) using bitNumber_bound(1) [OF jk(2), of low j] by linarith
  then show "n \<in> {p. is_prime p \<and> st \<le> p \<and> unat low + 2 \<le> p \<and> p \<le> hi}"
    using bits [OF jk(1,2)] jk(3,4) by simp
next
  fix p
  assume "p \<in> {p. is_prime p \<and> st \<le> p \<and> unat low + 2 \<le> p \<and> p \<le> hi}"
  then have p: "is_prime p" "st \<le> p" "unat low + 2 \<le> p" "p \<le> hi" by simp_all
  have p7: "7 \<le> p" using p(2) s7 by simp
  have ph: "p \<le> unat low + 30 * (m - 1) + 31" using p(4) hi by simp
  obtain j k where jk: "j < m" "k < 8" "p = unat low + 30 * j + unat (bitValues ! k)"
    using representable [OF dv prime_coprime30 [OF p(1) p7] p(3) ph m(1)] by blast
  have e: "p = bitNumber low j k" by (simp add: jk(3) bitNumber_def)
  have "bit (buf ! j) k" using bits [OF jk(1,2)] p unfolding e by simp
  then have "bit (take m buf ! j) k" using jk(1) by simp
  moreover have "j < length (take m buf)" using jk(1) m by simp
  ultimately show "p \<in> {n. \<exists>j < length (take m buf). \<exists>k < 8.
                 bit (take m buf ! j) k \<and> n = bitNumber low j k}"
    using jk(2) e by blast
qed

lemma primes_upto_split:
  assumes "L + 1 \<le> (hi::nat)"
  shows "{p. is_prime p \<and> st \<le> p \<and> p \<le> L + 1} \<union>
         {p. is_prime p \<and> st \<le> p \<and> L + 2 \<le> p \<and> p \<le> hi} =
         {p. is_prime p \<and> st \<le> p \<and> p \<le> hi}"
  using assms by auto

lemma advance_low:
  assumes c: "constructed s0" and i: "loop_inv s0 t"
      and lt: "segmentHigh_m t < stop_m t"
      and t2: "t2 = t\<lparr>sieve_m := sieve_m t2\<rparr>"
  shows "unat (segmentLow_m (advance (segmentProcessed (crossOffMultiples E t2)))) =
           unat (segmentLow_m t) + unat (sieveSize_m s0) * 30"
    and "unat (segmentLow_m t) + unat (sieveSize_m s0) * 30 + 1 < unat (stop_m s0)"
proof -
  note cf = constructed_facts [OF c]
  have f: "stop_m t = stop_m s0" "sieveSize_m t = sieveSize_m s0" "window t"
    using i by (simp_all add: loop_inv_def)
  let ?u = "segmentProcessed (crossOffMultiples E t2)"
  have g: "stop_m t2 = stop_m t" "sieveSize_m t2 = sieveSize_m t"
     "segmentLow_m t2 = segmentLow_m t" "segmentHigh_m t2 = segmentHigh_m t"
    by (subst t2, simp)+
  have u: "stop_m ?u = stop_m s0" "sieveSize_m ?u = sieveSize_m s0"
     "segmentLow_m ?u = segmentLow_m t" "segmentHigh_m ?u = segmentHigh_m t"
    by (simp_all add: segmentProcessed_fields crossOffMultiples_fields g f)
  have wu: "window ?u" using f(3) by (simp add: window_def u f)
  have ltu: "segmentHigh_m ?u < stop_m ?u" using lt by (simp add: u f)
  have stu: "unat (stop_m ?u) + 2 ^ 32 < 2 ^ 64" using cf(3) by (simp add: u)
  have szu: "unat (sieveSize_m ?u) \<le> 4194304" using cf(8) by (simp add: u)
  show "unat (segmentLow_m (advance ?u)) = unat (segmentLow_m t) + unat (sieveSize_m s0) * 30"
    using advance_nat(1) [OF wu szu ltu stu] by (simp add: u)
  have "unat (segmentHigh_m t) < unat (stop_m s0)"
    using lt by (simp add: word_less_nat_alt f)
  moreover have "unat (segmentHigh_m t) = unat (segmentLow_m t) + unat (sieveSize_m s0) * 30 + 1"
    using f(3) by (simp add: window_def f)
  ultimately show "unat (segmentLow_m t) + unat (sieveSize_m s0) * 30 + 1 < unat (stop_m s0)"
    by simp
qed

text \<open>
  Claim C1. For a valid range, a pre-sieve limit between 13 and 23, a pre-sieve that
  clears exactly the multiples of the primes from 7 up to its limit among the numbers
  above the limit, and tiers that only clear bits, keep the bit of every prime and
  clear the bit of every number that has a prime factor of their band whose square is
  not above the number: \<^verbatim>\<open>finish\<close> returns, and the numbers whose bits are set in
  the segments handed to the consumer are exactly the primes from start to stop.
\<close>

theorem finish_emits_primes:
  assumes v: "valid_input start stop"
      and n: "SieveOfEratosthenes_new E start stop sieveSize preSieveLimit h = (Inr s0, h')"
      and lim: "13 \<le> unat (PreSieve_limit (preSieve_m s0))"
               "unat (PreSieve_limit (preSieve_m s0)) \<le> 23"
      and dc: "doIt_contract E (preSieve_m s0)" and cc: "cascade_contract E s0"
  shows "\<exists>s'. finish E s0 = Some s' \<and>
            candidates (emitted s') = {p. is_prime p \<and> unat start \<le> p \<and> p \<le> unat stop}"
proof -
  have c: "constructed s0" using v n by (rule ctor_constructed)
  note cf = constructed_facts [OF c]
  have st: "start_m s0 = start" and sp: "stop_m s0 = stop"
    and em0: "emitted s0 = []" using n by (rule ctor_fields)+
  have "sqrtStop_m s0 = word_of_nat (isqrt (unat stop))" using n by (rule ctor_fields)
  then have sq: "unat (sqrtStop_m s0) = isqrt (unat (stop_m s0))"
    by (simp add: unat_sqrtStop sp)
  have cb: "cascade_built s0" using n by (rule ctor_cascade_built)
  have k: "keeps_length E s0" using dc cc cb by (rule contracts_keep_length)
  have ne0: "sieve_m s0 \<noteq> []" using cf(7,10) by auto
  define S where "S = unat (sieveSize_m s0)"
  define a where "a = unat start"
  have a7: "7 \<le> a" using cf(1) by (simp add: a_def st)
  have S1: "1 \<le> S" "length (sieve_m s0) = S" using cf(7,10) by (simp_all add: S_def)
  let ?J = "\<lambda>t. candidates (emitted t) =
                  {p. is_prime p \<and> a \<le> p \<and> p \<le> unat (segmentLow_m t) + 1}"
  have "\<exists>t. finish_loop E s0 = Some t \<and> loop_inv s0 t \<and> ?J t \<and> \<not> segmentHigh_m t < stop_m t"
  proof (rule finish_loop_inv_gen [OF c k])
    have "unat (segmentLow_m s0) + 1 < a"
      using cf(4) getByteRemainder_range(1) [of "start_m s0"] by (simp add: a_def st)
    then have "{p. is_prime p \<and> a \<le> p \<and> p \<le> unat (segmentLow_m s0) + 1} = {}" by auto
    then show "?J s0" by (simp add: em0 candidates_Nil)
  next
    fix t t2 assume i: "loop_inv s0 t" and J: "?J t" and lt: "segmentHigh_m t < stop_m t"
      and p: "preSieve E t = Some t2" "t2 = t\<lparr>sieve_m := sieve_m t2\<rparr>"
        "length (sieve_m t2) = length (sieve_m t)"
    have f: "start_m t = start_m s0" "preSieve_m t = preSieve_m s0"
       "sqrtStop_m t = sqrtStop_m s0"
       "eratSmall_m t = eratSmall_m s0" "eratMedium_m t = eratMedium_m s0"
       "eratBig_m t = eratBig_m s0" "length (sieve_m t) = length (sieve_m s0)"
       "sieveSize_m t = sieveSize_m s0" "30 dvd unat (segmentLow_m t)"
      using i by (simp_all add: loop_inv_def)
    have g: "segmentLow_m t2 = segmentLow_m t" "sieveSize_m t2 = sieveSize_m t"
      "emitted t2 = emitted t" "preSieve_m t2 = preSieve_m s0"
      "eratSmall_m t2 = eratSmall_m s0"
      "eratMedium_m t2 = eratMedium_m s0" "eratBig_m t2 = eratBig_m s0"
      by (subst p(2), simp add: f)+
    let ?c = "sieve_m (crossOffMultiples E t2)"
    let ?L = "unat (segmentLow_m t)"
    have kt2: "keeps_length E t2" using k keeps_length_cong [OF g(4-7)] by simp
    have lc: "length ?c = S"
      using crossOffMultiples_length [OF kt2] p(3) f(7) S1(2) by simp
    have em: "emitted (advance (segmentProcessed (crossOffMultiples E t2))) =
        emitted t @ [(segmentLow_m t, take S ?c)]"
      by (simp add: advance_fields segmentProcessed_fields crossOffMultiples_fields g f S_def)
    note al = advance_low(1) [OF c i lt p(2), where E = E, folded S_def]
      advance_low(2) [OF c i lt p(2), folded S_def]
    have hi: "?L + 30 * (S - 1) + 31 = ?L + S * 30 + 1" using S1(1) by (cases S) simp_all
    have bits: "bit (?c ! j) k \<longleftrightarrow>
        is_prime (bitNumber (segmentLow_m t) j k) \<and> a \<le> bitNumber (segmentLow_m t) j k \<and>
        bitNumber (segmentLow_m t) j k \<le> ?L + 30 * (S - 1) + 31"
      if jk: "j < S" "k < 8" for j k
    proof -
      have "30 * j \<le> 30 * (S - 1)" using jk(1) by simp
      then have b: "bitNumber (segmentLow_m t) j k \<le> ?L + 30 * (S - 1) + 31"
        using bitNumber_bound(2) [OF jk(2), of "segmentLow_m t" j] by linarith
      then have nle: "bitNumber (segmentLow_m t) j k \<le> unat (stop_m s0)"
        using al(2) hi by linarith
      have j1: "j < unat (sieveSize_m t)" using jk(1) by (simp add: f S_def)
      have j2: "j < length (sieve_m t)" using jk(1) S1(2) by (simp add: f)
      show ?thesis
        using sieved_bits [OF c lim sq dc cc cb f(1-6) loop_inv_lower [OF i] f(9) p(1) j1 j2
            jk(2) nle] b
        by (simp add: st a_def)
    qed
    have seg: "{n. \<exists>j < length (take S ?c). \<exists>k < 8. bit (take S ?c ! j) k \<and>
                     n = bitNumber (segmentLow_m t) j k} =
         {p. is_prime p \<and> a \<le> p \<and> ?L + 2 \<le> p \<and> p \<le> ?L + 30 * (S - 1) + 31}"
      using f(9) S1(1) _ a7 _ bits by (rule segment_primes) (simp_all add: lc)
    have le: "?L + 1 \<le> ?L + S * 30 + 1" by simp
    show "?J (advance (segmentProcessed (crossOffMultiples E t2)))"
      unfolding em candidates_snoc J seg [unfolded hi] primes_upto_split [OF le] al(1) ..
  qed
  then obtain t where t: "finish_loop E s0 = Some t" "loop_inv s0 t" "?J t"
    "\<not> segmentHigh_m t < stop_m t" by blast
  define t3 where "t3 = finish_resize (getByteRemainder (stop_m t)) t"
  define m where "m = unat (sieveSize_m t3)"
  define r where "r = unat (getByteRemainder (stop_m s0))"
  obtain t4 sv s' where t4: "preSieve E t3 = Some t4" "t4 = t3\<lparr>sieve_m := sieve_m t4\<rparr>"
      "length (sieve_m t4) = length (sieve_m s0)"
    and fin: "finish E s0 = Some s'"
    and em: "emitted s' = emitted t @ [(segmentLow_m t, take m sv)]"
    and mlen: "m \<le> length sv"
    and bits0: "\<forall>j k. j < m \<longrightarrow>
       (bit (sv ! j) k \<longleftrightarrow>
          bit (sieve_m (crossOffMultiples E t4) ! j) k \<and>
          (j = m - 1 \<longrightarrow> unat (bitValues ! k) \<le> r))"
    using finish_result [OF c k t(1,2,4), folded t3_def, folded m_def r_def]
    by (elim exE conjE) (rule that)
  have f: "start_m t = start_m s0" "preSieve_m t = preSieve_m s0"
     "sqrtStop_m t = sqrtStop_m s0"
     "eratSmall_m t = eratSmall_m s0" "eratMedium_m t = eratMedium_m s0"
     "eratBig_m t = eratBig_m s0" "length (sieve_m t) = length (sieve_m s0)"
     "30 dvd unat (segmentLow_m t)"
    using t(2) by (simp_all add: loop_inv_def)
  have f3: "start_m t3 = start_m s0" "preSieve_m t3 = preSieve_m s0"
     "sqrtStop_m t3 = sqrtStop_m s0"
     "eratSmall_m t3 = eratSmall_m s0" "eratMedium_m t3 = eratMedium_m s0"
     "eratBig_m t3 = eratBig_m s0" "length (sieve_m t3) = length (sieve_m s0)"
     "segmentLow_m t3 = segmentLow_m t"
    by (simp_all add: t3_def finish_resize_fields f)
  let ?L = "unat (segmentLow_m t)"
  let ?c = "sieve_m (crossOffMultiples E t4)"
  note rs = finish_resize_nat [OF c t(2,4), folded t3_def, folded m_def r_def]
  have rb: "2 \<le> r" "r \<le> 31" unfolding r_def by (rule getByteRemainder_range)+
  have lo3: "segmentLow_m t3 = segmentLow_m s0 \<or> unat (start_m s0) < unat (segmentLow_m t3)"
    unfolding f3(8) by (rule loop_inv_lower [OF t(2)])
  have dv3: "30 dvd unat (segmentLow_m t3)" unfolding f3(8) by (rule f(8))
  have bits: "bit (sv ! j) k \<longleftrightarrow>
        is_prime (bitNumber (segmentLow_m t) j k) \<and> a \<le> bitNumber (segmentLow_m t) j k \<and>
        bitNumber (segmentLow_m t) j k \<le> unat (stop_m s0)"
    if jk: "j < m" "k < 8" for j k
  proof -
    define bv where "bv = unat (bitValues ! k)"
    have bn: "bitNumber (segmentLow_m t) j k = ?L + 30 * j + bv"
      by (simp add: bitNumber_def bv_def)
    have bvb: "bv \<le> 31" using bitValues_nth_bounds [OF jk(2)] by (simp add: bv_def)
    have b0: "bit (sv ! j) k \<longleftrightarrow> bit (?c ! j) k \<and> (j = m - 1 \<longrightarrow> bv \<le> r)"
      using bits0 jk(1) unfolding bv_def by blast
    have up: "(j = m - 1 \<longrightarrow> bv \<le> r) \<longleftrightarrow> bitNumber (segmentLow_m t) j k \<le> unat (stop_m s0)"
    proof (cases "j = m - 1")
      case True
      then show ?thesis using rs(3) unfolding bn by auto
    next
      case False
      then have "j + 1 \<le> m - 1" using jk(1) by simp
      then have "30 * (j + 1) \<le> 30 * (m - 1)" by simp
      then have "30 * j + 30 \<le> 30 * (m - 1)" by simp
      then have "bitNumber (segmentLow_m t) j k \<le> unat (stop_m s0)"
        using rs(3) rb bvb unfolding bn by linarith
      then show ?thesis using False by simp
    qed
    show ?thesis
    proof (cases "bitNumber (segmentLow_m t) j k \<le> unat (stop_m s0)")
      case True
      have j1: "j < unat (sieveSize_m t3)" using jk(1) by (simp add: m_def)
      have j2: "j < length (sieve_m t3)" using jk(1) rs(2) cf(10) f3(7) by linarith
      have nle: "bitNumber (segmentLow_m t3) j k \<le> unat (stop_m s0)" using True by (simp add: f3)
      show ?thesis
        using sieved_bits [OF c lim sq dc cc cb f3(1-6) lo3 dv3 t4(1) j1 j2 jk(2) nle] True b0 up
        by (simp add: st a_def f3(8))
    next
      case False
      then show ?thesis using b0 up by simp
    qed
  qed
  have hi: "unat (stop_m s0) \<le> ?L + 30 * (m - 1) + 31" using rs(3) rb by linarith
  have seg: "{n. \<exists>j < length (take m sv). \<exists>k < 8. bit (take m sv ! j) k \<and>
                   n = bitNumber (segmentLow_m t) j k} =
       {p. is_prime p \<and> a \<le> p \<and> ?L + 2 \<le> p \<and> p \<le> unat (stop_m s0)}"
    using f(8) rs(1) mlen a7 hi bits by (rule segment_primes)
  have le: "?L + 1 \<le> unat (stop_m s0)" using rs(3) rb by linarith
  have "candidates (emitted s') = {p. is_prime p \<and> a \<le> p \<and> p \<le> unat (stop_m s0)}"
    unfolding em candidates_snoc t(3) seg primes_upto_split [OF le] ..
  then show ?thesis using fin by (simp add: a_def sp)
qed

lemma ref_doIt_contract: "doIt_contract ref_env ps"
  unfolding doIt_contract_def
proof (intro allI conjI impI)
  fix buf sz low
  show "length (doIt ref_env ps buf sz low) = length buf"
    by (simp add: ref_env_def ref_doIt_length)
next
  fix buf :: "uint8_t list" and sz :: uint_t and low :: uint64_t and j k :: nat
  assume "j < unat sz" "j < length buf" "k < 8"
  then show "bit (doIt ref_env ps buf sz low ! j) k \<longleftrightarrow>
      \<not> (\<exists>p. is_prime p \<and> 7 \<le> p \<and> p \<le> unat (PreSieve_limit ps) \<and> p dvd bitNumber low j k)"
    by (auto simp: ref_env_def ref_doIt_def bit_byte_of_bits)
qed

lemma ref_crossOff_contract:
  assumes lo: "6 \<le> lo" and hi: "hi \<le> unat (Erat_limit t)"
  shows "tier_contract lo hi (ref_crossOff t)"
  unfolding tier_contract_def
proof (intro allI conjI impI)
  fix low buf sz
  show "length (ref_crossOff t low buf sz) = length buf" by (rule ref_crossOff_length)
next
  fix low :: uint64_t and buf :: "uint8_t list" and sz :: uint_t and j k :: nat
  assume "j < length buf" "bit (ref_crossOff t low buf sz ! j) k"
  then show "bit (buf ! j) k" by (rule ref_crossOff_clears)
next
  fix low :: uint64_t and buf :: "uint8_t list" and sz :: uint_t and j k :: nat
  assume a: "j < unat sz" "j < length buf" "k < 8" "bit (buf ! j) k"
    and pr: "is_prime (bitNumber low j k)"
  have "\<not> (p dvd bitNumber low j k \<and> p * p \<le> bitNumber low j k)" if "7 \<le> p" for p
  proof
    assume d: "p dvd bitNumber low j k \<and> p * p \<le> bitNumber low j k"
    then have "p = 1 \<or> p = bitNumber low j k" using is_prime_dvd [OF pr] by blast
    then have e: "p = bitNumber low j k" using that by simp
    have "7 * p \<le> p * p" using that by simp
    then show False using d that unfolding e [symmetric] by simp
  qed
  then show "bit (ref_crossOff t low buf sz ! j) k"
    using a by (auto simp: ref_crossOff_def bit_byte_of_bits)
next
  fix low :: uint64_t and buf :: "uint8_t list" and sz :: uint_t and j k :: nat
  assume a: "j < unat sz" "j < length buf" "k < 8"
    and "\<exists>p. is_prime p \<and> lo < p \<and> p \<le> hi \<and> p dvd bitNumber low j k \<and>
              p * p \<le> bitNumber low j k"
  then obtain p where p: "is_prime p" "lo < p" "p \<le> hi" "p dvd bitNumber low j k"
    "p * p \<le> bitNumber low j k" by blast
  have "p \<in> {7..unat (Erat_limit t)}" using p(2,3) lo hi by simp
  then show "\<not> bit (ref_crossOff t low buf sz ! j) k"
    using a p by (auto simp: ref_crossOff_def bit_byte_of_bits)
qed

lemma SieveOfEratosthenes_new_ok:
  assumes "new_PreSieve E preSieveLimit = Inr ps" "\<not> start < 7" "\<not> start > stop"
      and "initEratAlgorithms E (SieveOfEratosthenes_members ps start stop sieveSize) h =
             (Inr s1, h1)"
      and "\<not> new_fails E (sieveSize_m s1)"
  shows "\<exists>s0 h'. SieveOfEratosthenes_new E start stop sieveSize preSieveLimit h = (Inr s0, h') \<and>
           preSieve_m s0 = preSieve_m s1 \<and> eratSmall_m s0 = eratSmall_m s1 \<and>
           eratMedium_m s0 = eratMedium_m s1 \<and> eratBig_m s0 = eratBig_m s1"
  using assms by (simp add: SieveOfEratosthenes_new_def)

lemma valid_million: "valid_input 7 1000000"
  by (simp add: valid_input_def)

lemma ref_env_new_million:
  "\<exists>s0 h'. SieveOfEratosthenes_new ref_env 7 1000000 1 13 [] = (Inr s0, h') \<and>
     preSieve_m s0 = \<lparr>PreSieve_limit = 13\<rparr> \<and>
     eratSmall_m s0 = Some \<lparr>Erat_limit = 512\<rparr> \<and>
     eratMedium_m s0 = Some \<lparr>Erat_limit = 6144\<rparr> \<and> eratBig_m s0 = None"
proof -
  let ?m = "SieveOfEratosthenes_members \<lparr>PreSieve_limit = 13\<rparr> 7 1000000 1"
  let ?s1 = "?m\<lparr>eratSmall_m := Some \<lparr>Erat_limit = 512\<rparr>,
                 eratMedium_m := Some \<lparr>Erat_limit = 6144\<rparr>\<rparr>"
  have p: "new_PreSieve ref_env 13 = Inr \<lparr>PreSieve_limit = 13\<rparr>" by (simp add: ref_env_def)
  have a: "\<not> (7 :: uint64_t) < 7" "\<not> (7 :: uint64_t) > 1000000" by simp_all
  have f: "\<not> new_fails ref_env (sieveSize_m ?s1)" by (simp add: ref_env_def)
  have e: "preSieve_m ?s1 = \<lparr>PreSieve_limit = 13\<rparr>" "eratSmall_m ?s1 = Some \<lparr>Erat_limit = 512\<rparr>"
    "eratMedium_m ?s1 = Some \<lparr>Erat_limit = 6144\<rparr>" "eratBig_m ?s1 = None"
    by (simp_all add: SieveOfEratosthenes_members_def Let_def)
  show ?thesis
    using SieveOfEratosthenes_new_ok [OF p a ref_env_million f] unfolding e .
qed

text \<open>
  An instance of claim C1: the range from 7 to one million with the reference
  collaborators, where the small and the medium tier exist.
\<close>

theorem finish_emits_primes_witness:
  "\<exists>s0 h' s'. SieveOfEratosthenes_new ref_env 7 1000000 1 13 [] = (Inr s0, h') \<and>
      finish ref_env s0 = Some s' \<and>
      candidates (emitted s') = {p. is_prime p \<and> 7 \<le> p \<and> p \<le> 1000000}"
proof -
  obtain s0 h' where n: "SieveOfEratosthenes_new ref_env 7 1000000 1 13 [] = (Inr s0, h')"
    and f: "preSieve_m s0 = \<lparr>PreSieve_limit = 13\<rparr>"
      "eratSmall_m s0 = Some \<lparr>Erat_limit = 512\<rparr>"
      "eratMedium_m s0 = Some \<lparr>Erat_limit = 6144\<rparr>" "eratBig_m s0 = None"
    using ref_env_new_million by blast
  have lim: "13 \<le> unat (PreSieve_limit (preSieve_m s0))"
    "unat (PreSieve_limit (preSieve_m s0)) \<le> 23" by (simp_all add: f)
  have t1: "tier_contract 13 512 (ref_crossOff \<lparr>Erat_limit = 512\<rparr>)"
    by (rule ref_crossOff_contract) simp_all
  have t2: "tier_contract 512 6144 (ref_crossOff \<lparr>Erat_limit = 6144\<rparr>)"
    by (rule ref_crossOff_contract) simp_all
  have cc: "cascade_contract ref_env s0"
    using t1 t2 by (simp add: cascade_contract_def f ref_env_def)
  obtain s' where "finish ref_env s0 = Some s'"
    "candidates (emitted s') = {p. is_prime p \<and> unat (7 :: uint64_t) \<le> p \<and>
        p \<le> unat (1000000 :: uint64_t)}"
    using finish_emits_primes [OF valid_million n lim ref_doIt_contract cc] by blast
  then show ?thesis using n by simp
qed

end
